theory Spec2Isabelle
  imports Main "HOL-Library.Sublist"
begin

section \<open>Strings and the regular expressions of the three scripts\<close>

text \<open>
  A Python \<open>str\<close> is a sequence of Unicode code points, so a string is a list of natural
  numbers; \<open>u\<close> turns an ASCII literal into such a list.
\<close>

type_synonym ustr = "nat list"

definition u :: "string \<Rightarrow> ustr" where
  "u s = map of_char s"

text \<open>
  \<open>str.isspace\<close>, which both \<open>str.strip()\<close> and the class \<open>\s\<close> of \<open>re\<close> (on \<open>str\<close>
  patterns) use: TAB..CR, FS..US, SPACE, NEL, NBSP and the Unicode space separators.
\<close>

definition is_space :: "nat \<Rightarrow> bool" where
  "is_space c = ((9 \<le> c \<and> c \<le> 13) \<or> (28 \<le> c \<and> c \<le> 32) \<or> c = 133 \<or> c = 160
     \<or> c = 5760 \<or> (8192 \<le> c \<and> c \<le> 8202) \<or> c = 8232 \<or> c = 8233 \<or> c = 8239
     \<or> c = 8287 \<or> c = 12288)"

text \<open>\<open>s.strip(chars)\<close> for a set of characters, and \<open>s.strip()\<close>.\<close>

definition strip_chars :: "(nat \<Rightarrow> bool) \<Rightarrow> ustr \<Rightarrow> ustr" where
  "strip_chars p s = rev (dropWhile p (rev (dropWhile p s)))"

definition strip :: "ustr \<Rightarrow> ustr" where
  "strip s = strip_chars is_space s"

text \<open>\<open>needle in s\<close>.\<close>

fun contains :: "ustr \<Rightarrow> ustr \<Rightarrow> bool" where
  "contains n [] = (n = [])"
| "contains n (c # s) = (prefix n (c # s) \<or> contains n s)"

text \<open>
  Every pattern of the scripts is a sequence of single-character classes, each with a greedy
  repetition count, and at most the anchors \<open>^\<close> and \<open>$\<close>. \<open>Rep p lo hi\<close> is the class \<open>p\<close>
  repeated \<open>lo\<close> to \<open>hi\<close> times (\<open>None\<close>: unbounded); \<open>Eol\<close> is \<open>$\<close> under \<open>re.MULTILINE\<close>.
  \<open>match_items\<close> is the backtracking matcher of \<open>re\<close>: a repetition first takes as many
  characters as it can and gives them back one by one while the rest of the pattern fails.
  It returns the text matched by each item and the text after the match.
\<close>

datatype item = Rep "nat \<Rightarrow> bool" nat "nat option" | Eol

fun can_more :: "nat option \<Rightarrow> bool" where
  "can_more None = True"
| "can_more (Some n) = (0 < n)"

fun dec :: "nat option \<Rightarrow> nat option" where
  "dec None = None"
| "dec (Some n) = Some (n - 1)"

function match_items :: "item list \<Rightarrow> ustr \<Rightarrow> (ustr list \<times> ustr) option"
  and rep :: "(nat \<Rightarrow> bool) \<Rightarrow> nat \<Rightarrow> nat option \<Rightarrow> item list \<Rightarrow> ustr \<Rightarrow> ustr
                \<Rightarrow> (ustr list \<times> ustr) option"
where
  "match_items [] s = Some ([], s)"
| "match_items (Eol # its) s =
     (if s = [] \<or> hd s = 10
      then (case match_items its s of Some (ms, r) \<Rightarrow> Some ([] # ms, r) | None \<Rightarrow> None)
      else None)"
| "match_items (Rep p lo hi # its) s = rep p lo hi its [] s"
| "rep p lo hi its acc [] =
     (if lo = 0
      then (case match_items its [] of Some (ms, r) \<Rightarrow> Some (acc # ms, r) | None \<Rightarrow> None)
      else None)"
| "rep p lo hi its acc (c # s) =
     (case (if p c \<and> can_more hi then rep p (lo - 1) (dec hi) its (acc @ [c]) s else None) of
        Some r \<Rightarrow> Some r
      | None \<Rightarrow>
          if lo = 0
          then (case match_items its (c # s) of Some (ms, r) \<Rightarrow> Some (acc # ms, r) | None \<Rightarrow> None)
          else None)"
  by pat_completeness auto
termination
  by (relation "measures
        [\<lambda>x. case x of Inl (its, s) \<Rightarrow> length its | Inr (p, lo, hi, its, acc, s) \<Rightarrow> length its,
         \<lambda>x. case x of Inl _ \<Rightarrow> 0 | Inr _ \<Rightarrow> 1,
         \<lambda>x. case x of Inl (its, s) \<Rightarrow> length s | Inr (p, lo, hi, its, acc, s) \<Rightarrow> length s]")
     auto

text \<open>One character, a literal string, \<open>c+\<close>, \<open>c*\<close>.\<close>

definition re_one :: "(nat \<Rightarrow> bool) \<Rightarrow> item" where
  "re_one p = Rep p 1 (Some 1)"

definition re_lit :: "ustr \<Rightarrow> item list" where
  "re_lit s = map (\<lambda>c. re_one (\<lambda>x. x = c)) s"

definition re_plus :: "(nat \<Rightarrow> bool) \<Rightarrow> item" where
  "re_plus p = Rep p 1 None"

definition re_star :: "(nat \<Rightarrow> bool) \<Rightarrow> item" where
  "re_star p = Rep p 0 None"

text \<open>\<open>pattern.match(s)\<close> and \<open>pattern.search(s)\<close>, as truth values.\<close>

definition re_match :: "item list \<Rightarrow> ustr \<Rightarrow> bool" where
  "re_match its s = (match_items its s \<noteq> None)"

fun re_search :: "item list \<Rightarrow> ustr \<Rightarrow> bool" where
  "re_search its [] = re_match its []"
| "re_search its (c # s) = (re_match its (c # s) \<or> re_search its s)"

text \<open>The group of a match by the index of its item; a missing group is the empty string.\<close>

definition grp :: "nat \<Rightarrow> ustr list \<Rightarrow> ustr" where
  "grp n ms = (if n < length ms then ms ! n else [])"

text \<open>
  \<open>re.sub(pattern, repl, s)\<close> with a function \<open>repl\<close> of the match: scan from the left, replace
  each match and go on behind it. \<open>skip\<close> counts the characters of the current match that are
  still to be passed over; \<open>bol_only\<close> says that the pattern starts with \<open>^\<close> under
  \<open>re.MULTILINE\<close>, and \<open>at_bol\<close> that the position is the start of a line.
\<close>

fun sub_go :: "bool \<Rightarrow> item list \<Rightarrow> (ustr list \<Rightarrow> ustr) \<Rightarrow> bool \<Rightarrow> nat \<Rightarrow> ustr \<Rightarrow> ustr" where
  "sub_go bol_only its f at_bol skip [] =
     (if skip = 0 \<and> (at_bol \<or> \<not> bol_only)
      then (case match_items its [] of Some (ms, r) \<Rightarrow> f ms | None \<Rightarrow> [])
      else [])"
| "sub_go bol_only its f at_bol (Suc n) (c # s) = sub_go bol_only its f (c = 10) n s"
| "sub_go bol_only its f at_bol 0 (c # s) =
     (if at_bol \<or> \<not> bol_only
      then (case match_items its (c # s) of
              Some (ms, r) \<Rightarrow>
                (if concat ms = [] then f ms @ c # sub_go bol_only its f (c = 10) 0 s
                 else f ms @ sub_go bol_only its f (c = 10) (length (concat ms) - 1) s)
            | None \<Rightarrow> c # sub_go bol_only its f (c = 10) 0 s)
      else c # sub_go bol_only its f (c = 10) 0 s)"

definition re_sub :: "item list \<Rightarrow> (ustr list \<Rightarrow> ustr) \<Rightarrow> ustr \<Rightarrow> ustr" where
  "re_sub its f s = sub_go False its f True 0 s"

definition re_sub_multiline_bol :: "item list \<Rightarrow> (ustr list \<Rightarrow> ustr) \<Rightarrow> ustr \<Rightarrow> ustr" where
  "re_sub_multiline_bol its f s = sub_go True its f True 0 s"


section \<open>The Markdown reformatter (spaces.py)\<close>

definition CSS_LINK_LINE :: ustr where
  "CSS_LINK_LINE =
     u ''<link rel=\"stylesheet\" href=\"{{ '' @ [39] @ u ''/assets/css/imagesstyle.css'' @ [39]
       @ u '' | relative_url }}\">''"

text \<open>\<open>RE_HEADER = ^(#{1,6})\s+\S\<close>, \<open>RE_IMAGE = !\[[^\]]*\]\([^)]+\)\<close>,
  \<open>RE_FENCE = ^(```|~~~)\<close>.\<close>

definition RE_HEADER :: "item list" where
  "RE_HEADER = [Rep (\<lambda>c. c = 35) 1 (Some 6), re_plus is_space, re_one (\<lambda>c. \<not> is_space c)]"

definition RE_IMAGE :: "item list" where
  "RE_IMAGE = [re_one (\<lambda>c. c = 33), re_one (\<lambda>c. c = 91), re_star (\<lambda>c. c \<noteq> 93),
               re_one (\<lambda>c. c = 93), re_one (\<lambda>c. c = 40), re_plus (\<lambda>c. c \<noteq> 41),
               re_one (\<lambda>c. c = 41)]"

definition RE_FENCE_match :: "ustr \<Rightarrow> bool" where
  "RE_FENCE_match s = (re_match (re_lit [96, 96, 96]) s \<or> re_match (re_lit [126, 126, 126]) s)"

definition RE_HEADER_match :: "ustr \<Rightarrow> bool" where
  "RE_HEADER_match s = re_match RE_HEADER s"

definition RE_IMAGE_search :: "ustr \<Rightarrow> bool" where
  "RE_IMAGE_search s = re_search RE_IMAGE s"

text \<open>\<open>split_front_matter\<close>: the loop looking for the closing \<open>---\<close> carries \<open>front\<close>.\<close>

fun find_close :: "ustr list \<Rightarrow> ustr list \<Rightarrow> (ustr list \<times> ustr list) option" where
  "find_close front [] = None"
| "find_close front (l # ls) =
     (if strip l = u ''---'' then Some (front @ [l], ls) else find_close (front @ [l]) ls)"

definition split_front_matter :: "ustr list \<Rightarrow> ustr list \<times> ustr list" where
  "split_front_matter lines =
     (case lines of
        [] \<Rightarrow> ([], [])
      | l0 # rest \<Rightarrow>
          if strip l0 \<noteq> u ''---'' then ([], lines)
          else (case find_close [l0] rest of Some r \<Rightarrow> r | None \<Rightarrow> ([], lines)))"

text \<open>\<open>line if line.endswith("\n") else line + "\n"\<close>.\<close>

definition with_nl :: "ustr \<Rightarrow> ustr" where
  "with_nl line = (if line \<noteq> [] \<and> last line = 10 then line else line @ [10])"

text \<open>\<open>out and out[-1].strip() != ""\<close>, and \<open>i + 1 < L and lines[i+1].strip() != ""\<close> on the
  lines after line \<open>i\<close>.\<close>

definition last_nonblank :: "ustr list \<Rightarrow> bool" where
  "last_nonblank out = (out \<noteq> [] \<and> strip (last out) \<noteq> [])"

definition next_nonblank :: "ustr list \<Rightarrow> bool" where
  "next_nonblank rest = (case rest of [] \<Rightarrow> False | n # _ \<Rightarrow> strip n \<noteq> [])"

text \<open>The \<open>while\<close> loop of \<open>process_content_lines\<close>: the state is \<open>in_code\<close> and \<open>out\<close>, the
  third argument is \<open>lines[i:]\<close>.\<close>

fun process_loop :: "bool \<Rightarrow> ustr list \<Rightarrow> ustr list \<Rightarrow> ustr list" where
  "process_loop in_code out [] = out"
| "process_loop in_code out (line # rest) =
     (if RE_FENCE_match (strip line) then process_loop (\<not> in_code) (out @ [line]) rest
      else if in_code then process_loop in_code (out @ [line]) rest
      else if RE_IMAGE_search (strip line) then
        process_loop in_code
          (out @ (if last_nonblank out then [[10]] else []) @ [with_nl line]
               @ (if next_nonblank rest then [[10]] else [])) rest
      else if RE_HEADER_match (strip line) then
        process_loop in_code
          (out @ (if last_nonblank out then [[10]] else []) @ [with_nl line]
               @ (if next_nonblank rest then [[10]] else [])) rest
      else if strip line = [] then
        process_loop in_code (if out = [] \<or> strip (last out) \<noteq> [] then out @ [[10]] else out) rest
      else process_loop in_code (out @ [with_nl line]) rest)"

definition process_content_lines :: "ustr list \<Rightarrow> ustr list" where
  "process_content_lines lines = process_loop False [] lines"

definition append_css_link_if_missing :: "ustr list \<Rightarrow> ustr list" where
  "append_css_link_if_missing lines =
     (if contains (u ''imagesstyle.css'') (concat lines) then lines
      else lines @ (if lines \<noteq> [] \<and> strip (last lines) \<noteq> [] then [[10]] else [])
                 @ [[10]] @ [CSS_LINK_LINE @ [10]])"

text \<open>\<open>process_file\<close> on the lines read from the file: \<open>reformat\<close> is \<open>new_lines\<close>;
  the result is the returned flag, the lines of the file afterwards and the backup written.\<close>

definition reformat :: "ustr list \<Rightarrow> ustr list" where
  "reformat original =
     (case split_front_matter original of
        (front, content) \<Rightarrow> front @ append_css_link_if_missing (process_content_lines content))"

definition process_file :: "ustr list \<Rightarrow> bool \<Rightarrow> bool \<times> ustr list \<times> ustr list option" where
  "process_file original dry_run =
     (let new_lines = reformat original in
      if new_lines = original then (False, original, None)
      else if dry_run then (True, original, None)
      else (True, new_lines, Some original))"


section \<open>The archive importer (automation.py)\<close>

text \<open>
  The Unicode tables of the Python runtime are not part of the repository; the importer is
  modelled over any implementation of them: \<open>unicodedata.normalize("NFKD", _)\<close>,
  \<open>str.lower\<close> and the UTF-8 decoder with \<open>errors="replace"\<close> that \<open>urllib.parse.unquote\<close> uses.
\<close>

record unicode_db =
  db_nfkd :: "ustr \<Rightarrow> ustr"
  db_lower :: "ustr \<Rightarrow> ustr"
  db_decode :: "nat list \<Rightarrow> ustr"

definition ascii_lower :: "nat \<Rightarrow> nat" where
  "ascii_lower c = (if 65 \<le> c \<and> c \<le> 90 then c + 32 else c)"

definition is_ascii :: "ustr \<Rightarrow> bool" where
  "is_ascii s = (\<forall>c\<in>set s. c < 128)"

text \<open>What every implementation of the tables does on ASCII text.\<close>

definition unicode_ok :: "unicode_db \<Rightarrow> bool" where
  "unicode_ok db = (\<forall>s. is_ascii s \<longrightarrow>
      db_nfkd db s = s \<and> db_lower db s = map ascii_lower s \<and> db_decode db s = s)"

definition ascii_db :: unicode_db where
  "ascii_db = \<lparr>db_nfkd = (\<lambda>s. s), db_lower = map ascii_lower, db_decode = (\<lambda>s. s)\<rparr>"

definition POST_DATE :: ustr where "POST_DATE = u ''2025-09-27''"
definition POST_CATEGORY :: ustr where "POST_CATEGORY = u ''writeups''"
definition IMG_EXTS :: "ustr set" where
  "IMG_EXTS = {u ''.png'', u ''.jpg'', u ''.jpeg'', u ''.gif'', u ''.webp''}"

definition is_lower_alnum :: "nat \<Rightarrow> bool" where
  "is_lower_alnum c = ((97 \<le> c \<and> c \<le> 122) \<or> (48 \<le> c \<and> c \<le> 57))"

definition is_alnum :: "nat \<Rightarrow> bool" where
  "is_alnum c = ((65 \<le> c \<and> c \<le> 90) \<or> (97 \<le> c \<and> c \<le> 122) \<or> (48 \<le> c \<and> c \<le> 57))"

definition slugify :: "unicode_db \<Rightarrow> ustr \<Rightarrow> ustr" where
  "slugify db name =
     (let name1 = filter (\<lambda>c. c < 128) (db_nfkd db name);
          name2 = db_lower db name1;
          name3 = strip_chars (\<lambda>c. c = 45)
                    (re_sub [re_plus (\<lambda>c. \<not> is_lower_alnum c)] (\<lambda>ms. u ''-'') name2)
      in if name3 = [] then u ''post'' else name3)"

text \<open>\<open>s.rfind(c)\<close>, \<open>os.path.basename\<close> and \<open>os.path.splitext\<close> (POSIX), and the \<open>suffix\<close>
  and \<open>stem\<close> of the final component of a \<open>pathlib\<close> path: the part from the last dot on,
  unless that dot is the first or the last character of the name.\<close>

definition rfind :: "nat \<Rightarrow> ustr \<Rightarrow> int" where
  "rfind c s = (if c \<in> set s then int (length s) - 1 - int (length (takeWhile (\<lambda>x. x \<noteq> c) (rev s)))
                else - 1)"

definition basename :: "ustr \<Rightarrow> ustr" where
  "basename p = drop (nat (rfind 47 p + 1)) p"

definition splitext :: "ustr \<Rightarrow> ustr \<times> ustr" where
  "splitext p =
     (let sepIndex = rfind 47 p; dotIndex = rfind 46 p in
      if dotIndex > sepIndex
         \<and> list_ex (\<lambda>c. c \<noteq> 46) (take (nat dotIndex - nat (sepIndex + 1)) (drop (nat (sepIndex + 1)) p))
      then (take (nat dotIndex) p, drop (nat dotIndex) p)
      else (p, []))"

definition suffix_of :: "ustr \<Rightarrow> ustr" where
  "suffix_of name =
     (let i = rfind 46 name in
      if 0 < i \<and> i < int (length name) - 1 then drop (nat i) name else [])"

definition stem :: "ustr \<Rightarrow> ustr" where
  "stem name =
     (let i = rfind 46 name in
      if 0 < i \<and> i < int (length name) - 1 then take (nat i) name else name)"

text \<open>\<open>urllib.parse.unquote\<close>: in every maximal run of ASCII characters each \<open>%XX\<close> with two
  hexadecimal digits becomes the byte \<open>XX\<close>, and the bytes of the run are decoded as UTF-8.\<close>

definition hex_val :: "nat \<Rightarrow> nat option" where
  "hex_val c = (if 48 \<le> c \<and> c \<le> 57 then Some (c - 48)
                else if 65 \<le> c \<and> c \<le> 70 then Some (c - 55)
                else if 97 \<le> c \<and> c \<le> 102 then Some (c - 87)
                else None)"

fun unquote_to_bytes :: "ustr \<Rightarrow> nat list" where
  "unquote_to_bytes [] = []"
| "unquote_to_bytes (c # s) =
     (if c = 37 then
        (case s of
           h1 # h2 # t \<Rightarrow>
             (case (hex_val h1, hex_val h2) of
                (Some a, Some b) \<Rightarrow> (16 * a + b) # unquote_to_bytes t
              | _ \<Rightarrow> c # unquote_to_bytes s)
         | _ \<Rightarrow> c # unquote_to_bytes s)
      else c # unquote_to_bytes s)"

fun unquote_runs :: "unicode_db \<Rightarrow> ustr \<Rightarrow> ustr \<Rightarrow> ustr" where
  "unquote_runs db run [] = (if run = [] then [] else db_decode db (unquote_to_bytes run))"
| "unquote_runs db run (c # s) =
     (if c < 128 then unquote_runs db (run @ [c]) s
      else (if run = [] then [] else db_decode db (unquote_to_bytes run)) @ c # unquote_runs db [] s)"

definition unquote :: "unicode_db \<Rightarrow> ustr \<Rightarrow> ustr" where
  "unquote db s = (if 37 \<notin> set s then s else unquote_runs db [] s)"

definition sanitize_img :: "unicode_db \<Rightarrow> ustr \<Rightarrow> ustr" where
  "sanitize_img db name =
     (case splitext (basename name) of
        (base, ext) \<Rightarrow>
          let base1 = unquote db base;
              base2 = strip_chars (\<lambda>c. c = 95)
                        (re_sub [re_plus (\<lambda>c. \<not> is_alnum c)] (\<lambda>ms. u ''_'') base1);
              base3 = (if base2 = [] then u ''img'' else base2);
              ext1 = (if ext \<noteq> [] then db_lower db ext else u ''.png'');
              ext2 = (if ext1 \<notin> IMG_EXTS then u ''.png'' else ext1)
          in base3 @ ext2)"

definition build_new_img_name :: "unicode_db \<Rightarrow> ustr \<Rightarrow> ustr \<Rightarrow> ustr" where
  "build_new_img_name db slug orig_path = slug @ u ''_'' @ sanitize_img db orig_path"

text \<open>\<open>MD_IMG_RE = !\[(?P<alt>[^\]]*)\]\((?P<src>[^)]+)\)\<close>: \<open>alt\<close> is item 2, \<open>src\<close> item 5.
  \<open>HTML_IMG_RE = <img\s+[^>]*src=["'](?P<src>[^"']+)["'](?P<rest>[^>]*)>\<close> with
  \<open>re.IGNORECASE\<close>: \<open>src\<close> is item 11, \<open>rest\<close> item 13; a letter of the pattern also matches
  its upper-case form and the code points that \<open>re\<close> folds to it.\<close>

definition MD_IMG_RE :: "item list" where
  "MD_IMG_RE = [re_one (\<lambda>c. c = 33), re_one (\<lambda>c. c = 91), re_star (\<lambda>c. c \<noteq> 93),
                re_one (\<lambda>c. c = 93), re_one (\<lambda>c. c = 40), re_plus (\<lambda>c. c \<noteq> 41),
                re_one (\<lambda>c. c = 41)]"

definition ci :: "nat \<Rightarrow> nat \<Rightarrow> bool" where
  "ci l c = (c = l \<or> c + 32 = l \<or> (l = 105 \<and> (c = 304 \<or> c = 305)) \<or> (l = 115 \<and> c = 383))"

definition HTML_IMG_RE :: "item list" where
  "HTML_IMG_RE =
     [re_one (\<lambda>c. c = 60), re_one (ci 105), re_one (ci 109), re_one (ci 103),
      re_plus is_space, re_star (\<lambda>c. c \<noteq> 62),
      re_one (ci 115), re_one (ci 114), re_one (ci 99), re_one (\<lambda>c. c = 61),
      re_one (\<lambda>c. c = 34 \<or> c = 39), re_plus (\<lambda>c. c \<noteq> 34 \<and> c \<noteq> 39),
      re_one (\<lambda>c. c = 34 \<or> c = 39), re_star (\<lambda>c. c \<noteq> 62), re_one (\<lambda>c. c = 62)]"

definition templated :: "ustr \<Rightarrow> ustr \<Rightarrow> ustr" where
  "templated slug new_fn =
     u ''{{ '' @ [39] @ u ''/assets/images/'' @ slug @ u ''/'' @ new_fn @ [39] @ u '' | relative_url }}''"

definition replace_markdown_images :: "unicode_db \<Rightarrow> ustr \<Rightarrow> (ustr \<rightharpoonup> ustr) \<Rightarrow> ustr \<Rightarrow> ustr" where
  "replace_markdown_images db text mapping slug =
     re_sub MD_IMG_RE
       (\<lambda>ms. let alt = grp 2 ms;
                  src = unquote db (strip (grp 5 ms));
                  key = db_lower db (basename src)
              in case mapping key of
                   None \<Rightarrow> concat ms
                 | Some new_fn \<Rightarrow>
                     if new_fn = [] then concat ms
                     else u ''!['' @ alt @ u ''](''  @ templated slug new_fn @ u '')'')
       text"

definition replace_html_images :: "unicode_db \<Rightarrow> ustr \<Rightarrow> (ustr \<rightharpoonup> ustr) \<Rightarrow> ustr \<Rightarrow> ustr" where
  "replace_html_images db text mapping slug =
     re_sub HTML_IMG_RE
       (\<lambda>ms. let src = unquote db (strip (grp 11 ms));
                  rest = grp 13 ms;
                  key = db_lower db (basename src)
              in case mapping key of
                   None \<Rightarrow> concat ms
                 | Some new_fn \<Rightarrow>
                     if new_fn = [] then concat ms
                     else u ''<img src=\"'' @ templated slug new_fn @ u ''\"'' @ rest @ u ''>'')
       text"

text \<open>The extracted tree is the list of its paths in the order in which \<open>rglob("*")\<close> yields
  them. A path is a regular file, with the outcome of \<open>read_text\<close> on it, or a directory.\<close>

datatype py_error = BadZipFile | IsADirectoryError | UnicodeDecodeError | OSError

datatype entry = File (e_name: ustr) "py_error + ustr" | Dir (e_name: ustr)

fun is_file :: "entry \<Rightarrow> bool" where
  "is_file (File n t) = True"
| "is_file (Dir n) = False"

fun read_text :: "entry \<Rightarrow> py_error + ustr" where
  "read_text (File n t) = t"
| "read_text (Dir n) = Inl IsADirectoryError"

definition find_first_markdown :: "unicode_db \<Rightarrow> entry list \<Rightarrow> entry option" where
  "find_first_markdown db tree =
     find (\<lambda>p. db_lower db (suffix_of (e_name p)) \<in> {u ''.md'', u ''.markdown''}) tree"

definition collect_images :: "unicode_db \<Rightarrow> entry list \<Rightarrow> entry list" where
  "collect_images db tree =
     filter (\<lambda>p. is_file p \<and> db_lower db (suffix_of (e_name p)) \<in> IMG_EXTS) tree"

text \<open>An archive: its file name, its modification time, and what extracting it gives. The
  state of the site: the post files (name to text), the asset directories under
  \<open>assets/images\<close> (name to the files in it), the lines printed, and the number of scratch
  directories on disk.\<close>

record archive =
  a_name :: ustr
  a_mtime :: int
  a_extract :: "py_error + entry list"

record site =
  posts :: "ustr \<rightharpoonup> ustr"
  asset_dirs :: "ustr \<rightharpoonup> (ustr \<rightharpoonup> entry)"
  stdout :: "ustr list"
  scratch :: nat

definition mkdir_assets :: "ustr \<Rightarrow> site \<Rightarrow> site" where
  "mkdir_assets slug st =
     (case asset_dirs st slug of
        Some d \<Rightarrow> st
      | None \<Rightarrow> st\<lparr>asset_dirs := (asset_dirs st)(slug \<mapsto> Map.empty)\<rparr>)"

definition copy_into :: "ustr \<Rightarrow> ustr \<Rightarrow> entry \<Rightarrow> site \<Rightarrow> site" where
  "copy_into slug new_name img st =
     st\<lparr>asset_dirs := (asset_dirs st)
          (slug \<mapsto> (case asset_dirs st slug of None \<Rightarrow> Map.empty | Some d \<Rightarrow> d)(new_name \<mapsto> img))\<rparr>"

text \<open>The loop over \<open>collect_images(tmpdir)\<close>: copy each image and enter its two keys.\<close>

fun copy_images :: "unicode_db \<Rightarrow> ustr \<Rightarrow> entry list \<Rightarrow> site \<times> (ustr \<rightharpoonup> ustr)
                      \<Rightarrow> site \<times> (ustr \<rightharpoonup> ustr)" where
  "copy_images db slug [] (st, mapping) = (st, mapping)"
| "copy_images db slug (img # imgs) (st, mapping) =
     (let new_name = build_new_img_name db slug (e_name img) in
      copy_images db slug imgs
        (copy_into slug new_name img st,
         mapping(db_lower db (e_name img) \<mapsto> new_name,
                 db_lower db (sanitize_img db (e_name img)) \<mapsto> new_name)))"

definition front_matter :: "ustr \<Rightarrow> ustr \<Rightarrow> ustr \<Rightarrow> ustr" where
  "front_matter post_title date category =
     u ''---'' @ [10] @ u ''layout: post'' @ [10] @ u ''title: \"'' @ post_title @ u ''\"'' @ [10]
     @ u ''date: '' @ date @ [10] @ u ''categories: '' @ category @ [10] @ u ''---'' @ [10, 10]"

definition rmtree :: "site \<Rightarrow> site" where
  "rmtree st = st\<lparr>scratch := scratch st - 1\<rparr>"

definition say :: "ustr \<Rightarrow> site \<Rightarrow> site" where
  "say line st = st\<lparr>stdout := stdout st @ [line]\<rparr>"

definition warn_no_markdown :: "ustr \<Rightarrow> ustr" where
  "warn_no_markdown name = u ''  [WARN] No se encontr'' @ [243] @ u '' archivo markdown en '' @ name"

text \<open>\<open>process_zip\<close>: \<open>Inl\<close> is an exception leaving the function, with the state it leaves
  behind (the \<open>finally\<close> clause has removed the scratch directory). The exceptions modelled
  are those of opening and extracting the archive and of reading the markdown document;
  the two paths are printed relative to the directory of the script.\<close>

definition process_zip :: "unicode_db \<Rightarrow> archive \<Rightarrow> ustr \<Rightarrow> ustr \<Rightarrow> site \<Rightarrow> py_error \<times> site + site" where
  "process_zip db zp date category st =
     (let slug = slugify db (stem (a_name zp));
          st1 = say (u ''== Procesando '' @ a_name zp @ u '' -> slug: '' @ slug) st;
          st2 = st1\<lparr>scratch := Suc (scratch st1)\<rparr>
      in case a_extract zp of
           Inl e \<Rightarrow> Inl (e, rmtree st2)
         | Inr tree \<Rightarrow>
             (case find_first_markdown db tree of
                None \<Rightarrow> Inr (rmtree (say (warn_no_markdown (a_name zp)) st2))
              | Some md_in \<Rightarrow>
                  let post_title = (if stem (e_name md_in) = [] then slug else stem (e_name md_in));
                      st3 = mkdir_assets slug st2
                  in case copy_images db slug (collect_images db tree) (st3, Map.empty) of
                       (st4, mapping) \<Rightarrow>
                         (case read_text md_in of
                            Inl e \<Rightarrow> Inl (e, rmtree st4)
                          | Inr md_text \<Rightarrow>
                              let md_text1 = replace_markdown_images db md_text mapping slug;
                                  md_text2 = replace_html_images db md_text1 mapping slug;
                                  final_text = front_matter post_title date category @ md_text2;
                                  post_filename = date @ u ''-'' @ slug @ u ''.markdown'';
                                  st5 = st4\<lparr>posts := (posts st4)(post_filename \<mapsto> final_text)\<rparr>;
                                  st6 = say (u ''  [OK] Post: _posts/'' @ post_filename) st5;
                                  st7 = say (u ''  [OK] Im'' @ [225] @ u ''genes: assets/images/'' @ slug) st6
                              in Inr (rmtree st7))))"

text \<open>The loop of \<open>main\<close> over the archives, and \<open>main\<close> on the \<open>*.zip\<close> entries of the
  directory: oldest first, \<open>sorted\<close> being stable.\<close>

fun process_all :: "unicode_db \<Rightarrow> archive list \<Rightarrow> site \<Rightarrow> py_error \<times> site + site" where
  "process_all db [] st = Inr st"
| "process_all db (zp # zps) st =
     (case process_zip db zp POST_DATE POST_CATEGORY st of
        Inl e \<Rightarrow> Inl e
      | Inr st' \<Rightarrow> process_all db zps st')"

definition main :: "unicode_db \<Rightarrow> archive list \<Rightarrow> site \<Rightarrow> py_error \<times> site + site" where
  "main db zips st = process_all db (sort_key a_mtime zips) st"


section \<open>The date normalizer (fix\_dates.py)\<close>

definition NEW_DATE :: ustr where
  "NEW_DATE = u ''2025-07-17 12:05:57 -0400''"

text \<open>\<open>^date:\s+.*$\<close> under \<open>re.MULTILINE\<close>; the \<open>^\<close> is the anchor of
  \<open>re_sub_multiline_bol\<close>, and \<open>.\<close> is any character but the newline.\<close>

definition DATE_RE :: "item list" where
  "DATE_RE = re_lit (u ''date:'') @ [re_plus is_space, re_star (\<lambda>c. c \<noteq> 10), Eol]"

text \<open>\<open>fix_date_in_file\<close> on the text of the file: the text written, if any, and whether
  the file is reported as changed.\<close>

definition fix_date_in_file :: "ustr \<Rightarrow> ustr option \<times> bool" where
  "fix_date_in_file text =
     (let new_text = re_sub_multiline_bol DATE_RE (\<lambda>ms. u ''date:   '' @ NEW_DATE) text in
      if new_text \<noteq> text then (Some new_text, True) else (None, False))"


section \<open>Auxiliary notions for the proofs\<close>

text \<open>What the loop of \<open>process_content_lines\<close> reads of \<open>out\<close> is only whether it is empty and
  whether its last line is blank; \<open>emit\<close> gives the lines that the loop adds to \<open>out\<close>.\<close>

datatype tail_state = Empty | Blank | Nonblank

definition tail_of :: "ustr list \<Rightarrow> tail_state" where
  "tail_of out = (if out = [] then Empty else if strip (last out) = [] then Blank else Nonblank)"

fun emit :: "bool \<Rightarrow> tail_state \<Rightarrow> ustr list \<Rightarrow> ustr list" where
  "emit c t [] = []"
| "emit c t (line # rest) =
     (if RE_FENCE_match (strip line) then line # emit (\<not> c) Nonblank rest
      else if c then line # emit True (if strip line = [] then Blank else Nonblank) rest
      else if RE_IMAGE_search (strip line) \<or> RE_HEADER_match (strip line) then
        (if t = Nonblank then [[10]] else []) @ with_nl line
          # (if next_nonblank rest then [10] # emit False Blank rest else emit False Nonblank rest)
      else if strip line = [] then
        (if t = Blank then emit False Blank rest else [10] # emit False Blank rest)
      else with_nl line # emit False Nonblank rest)"

text \<open>A line that toggles the fence state, and a front-matter block: a \<open>---\<close> line, lines
  that are not \<open>---\<close>, and a closing \<open>---\<close> line.\<close>

definition fence_line :: "ustr \<Rightarrow> bool" where
  "fence_line l = RE_FENCE_match (strip l)"

definition front_block :: "ustr list \<Rightarrow> bool" where
  "front_block f =
     (case f of
        [] \<Rightarrow> False
      | a # rest \<Rightarrow> rest \<noteq> [] \<and> strip a = u ''---'' \<and> strip (last rest) = u ''---''
                   \<and> (\<forall>l\<in>set (butlast rest). strip l \<noteq> u ''---''))"


text \<open>The test of \<open>find_first_markdown\<close> on a path, an empty site, and three archives: one
  that is not a zip file, one holding a markdown file, one holding only a directory whose
  name ends in \<open>.md\<close>.\<close>

definition is_markdown :: "unicode_db \<Rightarrow> entry \<Rightarrow> bool" where
  "is_markdown db p = (db_lower db (suffix_of (e_name p)) \<in> {u ''.md'', u ''.markdown''})"

definition site0 :: site where
  "site0 = \<lparr>posts = Map.empty, asset_dirs = Map.empty, stdout = [], scratch = 0\<rparr>"

definition bad_zip :: archive where
  "bad_zip = \<lparr>a_name = u ''a.zip'', a_mtime = 1, a_extract = Inl BadZipFile\<rparr>"

definition good_zip :: archive where
  "good_zip = \<lparr>a_name = u ''b.zip'', a_mtime = 2,
               a_extract = Inr [File (u ''n.md'') (Inr (u ''hi''))]\<rparr>"

definition dir_zip :: archive where
  "dir_zip = \<lparr>a_name = u ''a.zip'', a_mtime = 1, a_extract = Inr [Dir (u ''x.md'')]\<rparr>"

text \<open>An archive holding a document that refers to its one image.\<close>

definition photo_zip :: archive where
  "photo_zip = \<lparr>a_name = u ''My Trip.zip'', a_mtime = 3,
     a_extract = Inr [File (u ''notes.md'') (Inr (u ''Hi '' @ u ''![x](photo.PNG)'' @ u '' bye'')),
                      File (u ''photo.PNG'') (Inl UnicodeDecodeError)]\<rparr>"

text \<open>What \<open>re.sub\<close> does for a pattern \<open>[class]+\<close> and a constant replacement: every maximal
  run of the class is replaced once. The shape of a slug: lower-case letters, digits and
  single hyphens.\<close>

fun coll :: "(nat \<Rightarrow> bool) \<Rightarrow> ustr \<Rightarrow> bool \<Rightarrow> ustr \<Rightarrow> ustr" where
  "coll p r in_run [] = []"
| "coll p r in_run (c # s) =
     (if p c then (if in_run then coll p r True s else r @ coll p r True s)
      else c # coll p r False s)"

definition slug_char :: "nat \<Rightarrow> bool" where
  "slug_char c = (is_lower_alnum c \<or> c = 45)"

definition slug_shaped :: "ustr \<Rightarrow> bool" where
  "slug_shaped t = ((\<forall>c\<in>set t. slug_char c) \<and> successively (\<lambda>a b. \<not> (a = 45 \<and> b = 45)) t)"


section \<open>Properties of the reformatter\<close>


lemma strip_nl [simp]: "strip [10] = []"
  by (simp add: strip_def strip_chars_def is_space_def)

lemma strip_Nil [simp]: "strip [] = []"
  by (simp add: strip_def strip_chars_def)

lemma strip_snoc_nl [simp]: "strip (l @ [10]) = strip l"
proof -
  have sp: "is_space 10" by (simp add: is_space_def)
  show ?thesis
  proof (cases "\<forall>c\<in>set l. is_space c")
    case True
    then have "dropWhile is_space (l @ [10]) = []" using sp by simp
    moreover have "dropWhile is_space l = []" using True by simp
    ultimately show ?thesis by (simp add: strip_def strip_chars_def del: dropWhile_eq_Nil_conv)
  next
    case False
    then obtain x where "x \<in> set l" "\<not> is_space x" by blast
    then have "dropWhile is_space (l @ [10]) = dropWhile is_space l @ [10]"
      by (rule dropWhile_append1)
    then show ?thesis using sp by (simp add: strip_def strip_chars_def)
  qed
qed

lemma strip_with_nl [simp]: "strip (with_nl l) = strip l"
  by (simp add: with_nl_def)

lemma with_nl_idem [simp]: "with_nl (with_nl l) = with_nl l"
  by (simp add: with_nl_def)

lemma fence_Nil [simp]: "\<not> RE_FENCE_match []"
  by (simp add: RE_FENCE_match_def re_match_def re_lit_def re_one_def)

lemma header_Nil [simp]: "\<not> RE_HEADER_match []"
  by (simp add: RE_HEADER_match_def RE_HEADER_def re_match_def)

lemma image_Nil [simp]: "\<not> RE_IMAGE_search []"
  by (simp add: RE_IMAGE_search_def RE_IMAGE_def re_match_def re_one_def)

lemma tail_of_simps [simp]:
  "tail_of [] = Empty"
  "tail_of (out @ [l]) = (if strip l = [] then Blank else Nonblank)"
  by (simp_all add: tail_of_def)

lemma loop_emit: "process_loop c out xs = out @ emit c (tail_of out) xs"
proof (induction xs arbitrary: c out)
  case Nil
  then show ?case by simp
next
  case (Cons line rest)
  have nb: "last_nonblank out = (tail_of out = Nonblank)"
    by (simp add: last_nonblank_def tail_of_def)
  have bl: "(out = [] \<or> strip (last out) \<noteq> []) = (tail_of out \<noteq> Blank)"
    by (simp add: tail_of_def)
  have f: "RE_FENCE_match (strip line) \<Longrightarrow> strip line \<noteq> []" by auto
  have i: "RE_IMAGE_search (strip line) \<Longrightarrow> strip line \<noteq> []" by auto
  have h: "RE_HEADER_match (strip line) \<Longrightarrow> strip line \<noteq> []" by auto
  show ?case
    using f i h
    apply (simp only: process_loop.simps emit.simps Cons.IH nb bl)
    apply (auto simp add: tail_of_def simp del: emit.simps process_loop.simps)
    done
qed

lemma nn_emit: "\<not> next_nonblank rest \<Longrightarrow> \<not> next_nonblank (emit False Nonblank rest)"
  by (cases rest) (auto simp add: next_nonblank_def)

lemma nn_Cons [simp]: "next_nonblank (l # ls) = (strip l \<noteq> [])"
  by (simp add: next_nonblank_def)

lemma emit_idem: "emit c t (emit c t xs) = emit c t xs"
proof (induction xs arbitrary: c t)
  case Nil
  then show ?case by simp
next
  case (Cons line rest)
  show ?case
    using Cons.IH nn_emit[of rest]
    by (cases t) auto
qed


lemma nn_append_fence:
  "RE_FENCE_match (strip y) \<Longrightarrow> next_nonblank (xs @ y # ys) = next_nonblank (xs @ [y])"
  by (cases xs) auto

lemma emit_split_at_fence:
  "RE_FENCE_match (strip y) \<Longrightarrow>
   emit c t (xs @ y # ys) =
     emit c t (xs @ [y]) @ emit (if even (length (filter fence_line xs)) then \<not> c else c) Nonblank ys"
proof (induction xs arbitrary: c t)
  case Nil
  then show ?case by simp
next
  case (Cons line rest)
  show ?case
    using Cons.prems Cons.IH[OF Cons.prems] nn_append_fence[OF Cons.prems, of rest ys]
    by (auto simp add: fence_line_def)
qed

lemma emit_in_code:
  "RE_FENCE_match (strip cls) \<Longrightarrow> \<forall>l\<in>set body. \<not> RE_FENCE_match (strip l) \<Longrightarrow>
   emit True t (body @ cls # post) = body @ cls # emit False Nonblank post"
  by (induction body arbitrary: t) auto

lemma emit_ends_with_fence:
  "RE_FENCE_match (strip y) \<Longrightarrow> \<exists>zs. emit c t (xs @ [y]) = zs @ [y]"
proof (induction xs arbitrary: c t)
  case Nil
  then show ?case by simp
next
  case (Cons line rest)
  from Cons.IH[OF Cons.prems] have ih: "\<And>c t. \<exists>zs. emit c t (rest @ [y]) = zs @ [y]" by blast
  obtain z1 where z1: "emit (\<not> c) Nonblank (rest @ [y]) = z1 @ [y]" using ih by blast
  obtain z2 where z2: "emit True (if strip line = [] then Blank else Nonblank) (rest @ [y]) = z2 @ [y]" using ih by blast
  obtain z3 where z3: "emit False Blank (rest @ [y]) = z3 @ [y]" using ih by blast
  obtain z4 where z4: "emit False Nonblank (rest @ [y]) = z4 @ [y]" using ih by blast
  show ?case
    using z1 z2 z3 z4 by (auto simp add: Cons_eq_append_conv)
qed

lemmas eval_reformat = u_def strip_def strip_chars_def is_space_def RE_FENCE_match_def
  RE_IMAGE_search_def RE_HEADER_match_def RE_HEADER_def RE_IMAGE_def re_match_def re_lit_def re_one_def
  re_plus_def re_star_def process_content_lines_def reformat_def append_css_link_if_missing_def
  split_front_matter_def with_nl_def last_nonblank_def next_nonblank_def CSS_LINK_LINE_def

text \<open>
  Claim C9. Let the content pass reach a fence line \<open>opn\<close> in the normal state (the lines
  \<open>pre\<close> before it hold an even number of fence lines), and let \<open>cls\<close> be the next fence line,
  the lines \<open>body\<close> between the two holding no fence line. Then the output consists of the
  output for \<open>pre @ [opn]\<close>, which ends with \<open>opn\<close> itself, directly followed by \<open>body\<close> and
  \<open>cls\<close> exactly as they are in the input, with no line inserted, dropped or changed, whatever
  the lines of \<open>body\<close> look like; the loop goes on behind \<open>cls\<close> in the normal state.
\<close>

theorem fenced_region_copied:
  assumes "even (length (filter fence_line pre))"
    and "fence_line opn" and "fence_line cls" and "\<forall>l\<in>set body. \<not> fence_line l"
  shows "process_content_lines (pre @ opn # body @ cls # post) =
           process_loop False (process_content_lines (pre @ [opn]) @ body @ [cls]) post
         \<and> prefix (process_content_lines (pre @ [opn]) @ body @ [cls])
                  (process_content_lines (pre @ opn # body @ cls # post))
         \<and> (\<exists>out. process_content_lines (pre @ [opn]) = out @ [opn])"
proof -
  have o: "RE_FENCE_match (strip opn)" and c: "RE_FENCE_match (strip cls)"
    and b: "\<forall>l\<in>set body. \<not> RE_FENCE_match (strip l)"
    using assms by (simp_all add: fence_line_def)
  have c': "strip cls \<noteq> []" using c by auto
  have 1: "process_content_lines (pre @ opn # body @ cls # post) =
        process_content_lines (pre @ [opn]) @ body @ cls # emit False Nonblank post"
    using emit_split_at_fence[OF o, of False Empty pre "body @ cls # post"] assms(1)
      emit_in_code[OF c b, of Nonblank post]
    by (simp add: process_content_lines_def loop_emit)
  have 2: "process_loop False (process_content_lines (pre @ [opn]) @ body @ [cls]) post =
        process_content_lines (pre @ [opn]) @ body @ cls # emit False Nonblank post"
    using c' by (simp add: loop_emit tail_of_def)
  have 3: "\<exists>out. process_content_lines (pre @ [opn]) = out @ [opn]"
    using emit_ends_with_fence[OF o, of False Empty pre]
    by (simp add: process_content_lines_def loop_emit)
  show ?thesis using 1 2 3 by (simp add: prefix_def)
qed


theorem fenced_region_copied_witness:
  "even (length (filter fence_line [u ''a'' @ [10]]))
   \<and> fence_line ([96, 96, 96] @ [10]) \<and> \<not> fence_line (u ''### x'' @ [10]) \<and> \<not> fence_line (u ''b'')
   \<and> prefix (process_content_lines [u ''a'' @ [10], [96, 96, 96] @ [10]]
                @ [u ''### x'' @ [10], u ''b''] @ [[96, 96, 96] @ [10]])
        (process_content_lines
           ([u ''a'' @ [10]] @ ([96, 96, 96] @ [10]) # [u ''### x'' @ [10], u ''b'']
              @ ([96, 96, 96] @ [10]) # [u ''# h'' @ [10]]))"
proof -
  have h1: "even (length (filter fence_line [u ''a'' @ [10]]))"
    by (simp add: fence_line_def u_def strip_def strip_chars_def is_space_def RE_FENCE_match_def
        re_match_def re_lit_def re_one_def)
  have h2: "fence_line ([96, 96, 96] @ [10])"
    by (simp add: fence_line_def strip_def strip_chars_def is_space_def RE_FENCE_match_def
        re_match_def re_lit_def re_one_def)
  have h3: "\<forall>l\<in>set [u ''### x'' @ [10], u ''b'']. \<not> fence_line l"
    by (simp add: fence_line_def u_def strip_def strip_chars_def is_space_def RE_FENCE_match_def
        re_match_def re_lit_def re_one_def)
  from fenced_region_copied[OF h1 h2 h2 h3, of "[u ''# h'' @ [10]]"] h1 h2 h3
  show ?thesis by simp
qed

lemma find_close_hit:
  "\<forall>l\<in>set mid. strip l \<noteq> u ''---'' \<Longrightarrow> strip b = u ''---'' \<Longrightarrow>
   find_close front (mid @ b # c) = Some (front @ mid @ [b], c)"
  by (induction mid arbitrary: front) auto

lemma find_close_miss:
  "\<forall>l\<in>set ls. strip l \<noteq> u ''---'' \<Longrightarrow> find_close front ls = None"
  by (induction ls arbitrary: front) auto

lemma find_close_Some:
  "find_close front ls = Some (f, c) \<Longrightarrow>
   \<exists>mid b. ls = mid @ b # c \<and> f = front @ mid @ [b] \<and> strip b = u ''---''
      \<and> (\<forall>l\<in>set mid. strip l \<noteq> u ''---'')"
proof (induction ls arbitrary: front)
  case Nil
  then show ?case by simp
next
  case (Cons l ls)
  show ?case
  proof (cases "strip l = u ''---''")
    case True
    with Cons.prems show ?thesis by auto
  next
    case False
    with Cons.prems have "find_close (front @ [l]) ls = Some (f, c)" by simp
    from Cons.IH[OF this] obtain mid b where
      "ls = mid @ b # c" "f = (front @ [l]) @ mid @ [b]" "strip b = u ''---''"
      "\<forall>l\<in>set mid. strip l \<noteq> u ''---''" by blast
    with False show ?thesis
      by (intro exI[of _ "l # mid"] exI[of _ b]) simp
  qed
qed

lemma find_close_None:
  "find_close front ls = None \<Longrightarrow> \<forall>l\<in>set ls. strip l \<noteq> u ''---''"
  by (induction ls arbitrary: front) (auto split: if_splits)

lemma front_blockI:
  "strip a = u ''---'' \<Longrightarrow> strip b = u ''---'' \<Longrightarrow> \<forall>l\<in>set mid. strip l \<noteq> u ''---''
   \<Longrightarrow> front_block (a # mid @ [b])"
  by (simp add: front_block_def)

lemma front_blockD:
  assumes "front_block f"
  obtains a mid b where "f = a # mid @ [b]" "strip a = u ''---''" "strip b = u ''---''"
    "\<forall>l\<in>set mid. strip l \<noteq> u ''---''"
proof (cases f)
  case Nil
  with assms show ?thesis by (simp add: front_block_def)
next
  case (Cons a rest)
  with assms have "rest \<noteq> []" "strip a = u ''---''" "strip (last rest) = u ''---''"
    "\<forall>l\<in>set (butlast rest). strip l \<noteq> u ''---''"
    by (simp_all add: front_block_def)
  moreover from \<open>rest \<noteq> []\<close> Cons have "f = a # butlast rest @ [last rest]" by simp
  ultimately show ?thesis using that by blast
qed

lemma split_front_block:
  "front_block f \<Longrightarrow> split_front_matter (f @ c) = (f, c)"
  by (erule front_blockD) (simp add: split_front_matter_def find_close_hit)

lemma split_cases:
  assumes "split_front_matter x = (f, c)"
  shows "(front_block f \<and> x = f @ c) \<or>
         (f = [] \<and> c = x \<and> (x = [] \<or> strip (hd x) \<noteq> u ''---''
              \<or> (\<forall>l\<in>set (tl x). strip l \<noteq> u ''---'')))"
proof (cases x)
  case Nil
  with assms show ?thesis by (simp add: split_front_matter_def)
next
  case (Cons a xs)
  show ?thesis
  proof (cases "strip a = u ''---''")
    case False
    with assms Cons show ?thesis by (auto simp add: split_front_matter_def)
  next
    case True
    show ?thesis
    proof (cases "find_close [a] xs")
      case None
      with assms Cons True find_close_None[OF None] show ?thesis
        by (auto simp add: split_front_matter_def)
    next
      case (Some r)
      with assms Cons True have fc: "find_close [a] xs = Some (f, c)"
        by (simp add: split_front_matter_def)
      from find_close_Some[OF fc] obtain mid b where
        "xs = mid @ b # c" "f = [a] @ mid @ [b]" "strip b = u ''---''"
        "\<forall>l\<in>set mid. strip l \<noteq> u ''---''" by blast
      with True Cons front_blockI[of a b mid] show ?thesis by auto
    qed
  qed
qed

lemma dash_class:
  assumes "strip l = u ''---''"
  shows "\<not> RE_FENCE_match (strip l)" "\<not> RE_IMAGE_search (strip l)" "\<not> RE_HEADER_match (strip l)"
    "strip l \<noteq> []"
  using assms
  by (simp_all add: u_def RE_FENCE_match_def RE_IMAGE_search_def RE_HEADER_match_def
      RE_HEADER_def RE_IMAGE_def re_match_def re_lit_def re_one_def re_plus_def re_star_def)

lemma emit_strips:
  "l \<in> set (emit c t xs) \<Longrightarrow> strip l = [] \<or> strip l \<in> strip ` set xs"
  by (induction xs arbitrary: c t) (auto split: if_splits)

lemma emit_hd:
  "\<exists>h zs. emit False Empty (a # xs) = h # zs \<and> (strip h = [] \<or> strip h = strip a)"
  by auto

lemma no_front_preserved:
  assumes "split_front_matter x = ([], x)"
  shows "split_front_matter (process_content_lines x) = ([], process_content_lines x)"
proof (cases x)
  case Nil
  then show ?thesis by (simp add: process_content_lines_def split_front_matter_def)
next
  case (Cons a xs)
  from split_cases[OF assms] have
    d: "strip a \<noteq> u ''---'' \<or> (\<forall>l\<in>set xs. strip l \<noteq> u ''---'')"
    using Cons by (auto simp add: front_block_def)
  have nd: "u ''---'' \<noteq> []" by (simp add: u_def)
  show ?thesis
  proof (cases "strip a = u ''---''")
    case False
    obtain h zs where h: "emit False Empty (a # xs) = h # zs" "strip h = [] \<or> strip h = strip a"
      using emit_hd by blast
    with False nd have "strip h \<noteq> u ''---''" by auto
    with h Cons show ?thesis
      by (simp add: process_content_lines_def loop_emit split_front_matter_def)
  next
    case True
    with d have nx: "\<forall>l\<in>set xs. strip l \<noteq> u ''---''" by simp
    have e: "emit False Empty (a # xs) = with_nl a # emit False Nonblank xs"
      using dash_class[OF True] by simp
    have "\<forall>l\<in>set (emit False Nonblank xs). strip l \<noteq> u ''---''"
      using emit_strips[of _ False Nonblank xs] nx nd by fastforce
    from find_close_miss[OF this] e Cons True show ?thesis
      by (simp add: process_content_lines_def loop_emit split_front_matter_def)
  qed
qed

lemma process_content_lines_idem:
  "process_content_lines (process_content_lines ls) = process_content_lines ls"
  by (simp add: process_content_lines_def loop_emit emit_idem)

lemma split_reformat_parts:
  assumes "split_front_matter x = (f, c)"
  shows "split_front_matter (f @ process_content_lines c) = (f, process_content_lines c)"
  using split_cases[OF assms] assms split_front_block no_front_preserved by auto

lemma emit_keeps_last_line:
  "strip l \<noteq> [] \<Longrightarrow> with_nl l = l \<Longrightarrow> \<exists>ws. emit c t (zs @ [l]) = ws @ [l]"
proof (induction zs arbitrary: c t)
  case Nil
  then show ?case by (auto simp add: next_nonblank_def)
next
  case (Cons line rest)
  from Cons.IH[OF Cons.prems] have ih: "\<And>c t. \<exists>ws. emit c t (rest @ [l]) = ws @ [l]" by blast
  obtain z1 where z1: "emit (\<not> c) Nonblank (rest @ [l]) = z1 @ [l]" using ih by blast
  obtain z2 where z2: "emit True (if strip line = [] then Blank else Nonblank) (rest @ [l]) = z2 @ [l]"
    using ih by blast
  obtain z3 where z3: "emit False Blank (rest @ [l]) = z3 @ [l]" using ih by blast
  obtain z4 where z4: "emit False Nonblank (rest @ [l]) = z4 @ [l]" using ih by blast
  show ?case
    using z1 z2 z3 z4 by (auto simp add: Cons_eq_append_conv)
qed

lemma contains_append: "contains n b \<Longrightarrow> contains n (a @ b)"
  by (induction a) simp_all


lemma no_front_preserved_ext:
  assumes "split_front_matter x = ([], x)" and "\<forall>l\<in>set ys. strip l \<noteq> u ''---''"
  shows "split_front_matter (process_content_lines x @ ys) = ([], process_content_lines x @ ys)"
proof (cases x)
  case Nil
  have "split_front_matter ys = ([], ys)"
    using assms(2) by (cases ys) (simp_all add: split_front_matter_def)
  with Nil show ?thesis by (simp add: process_content_lines_def)
next
  case (Cons a xs)
  from split_cases[OF assms(1)] have
    d: "strip a \<noteq> u ''---'' \<or> (\<forall>l\<in>set xs. strip l \<noteq> u ''---'')"
    using Cons by (auto simp add: front_block_def)
  have nd: "u ''---'' \<noteq> []" by (simp add: u_def)
  show ?thesis
  proof (cases "strip a = u ''---''")
    case False
    obtain h zs where h: "emit False Empty (a # xs) = h # zs" "strip h = [] \<or> strip h = strip a"
      using emit_hd by blast
    with False nd have "strip h \<noteq> u ''---''" by auto
    with h Cons show ?thesis
      by (simp add: process_content_lines_def loop_emit split_front_matter_def)
  next
    case True
    with d have nx: "\<forall>l\<in>set xs. strip l \<noteq> u ''---''" by simp
    have e: "emit False Empty (a # xs) = with_nl a # emit False Nonblank xs"
      using dash_class[OF True] by simp
    have "\<forall>l\<in>set (emit False Nonblank xs). strip l \<noteq> u ''---''"
      using emit_strips[of _ False Nonblank xs] nx nd by fastforce
    with assms(2) have "\<forall>l\<in>set (emit False Nonblank xs @ ys). strip l \<noteq> u ''---''" by auto
    from find_close_miss[OF this] e Cons True show ?thesis
      by (simp add: process_content_lines_def loop_emit split_front_matter_def)
  qed
qed

lemma split_reformat_parts_ext:
  assumes "split_front_matter x = (f, c)" and "\<forall>l\<in>set ys. strip l \<noteq> u ''---''"
  shows "split_front_matter (f @ process_content_lines c @ ys) = (f, process_content_lines c @ ys)"
  using split_cases[OF assms(1)] assms split_front_block no_front_preserved_ext by auto

lemma link_line_facts:
  "strip (CSS_LINK_LINE @ [10]) \<noteq> []" "strip (CSS_LINK_LINE @ [10]) \<noteq> u ''---''"
  "with_nl (CSS_LINK_LINE @ [10]) = CSS_LINK_LINE @ [10]"
  "contains (u ''imagesstyle.css'') (CSS_LINK_LINE @ [10])"
  by (simp_all add: CSS_LINK_LINE_def u_def strip_def strip_chars_def is_space_def with_nl_def)

lemma reformat_fixed_when_marker:
  assumes "contains (u ''imagesstyle.css'')
             (concat (process_content_lines (snd (split_front_matter x))))"
  shows "reformat (reformat x) = reformat x"
proof -
  obtain f c where s: "split_front_matter x = (f, c)" by (cases "split_front_matter x")
  have r: "reformat x = f @ process_content_lines c"
    using assms s by (simp add: reformat_def append_css_link_if_missing_def)
  show ?thesis
    using assms s split_reformat_parts[OF s] r
    by (simp add: reformat_def append_css_link_if_missing_def process_content_lines_idem)
qed

lemma marker_after_first_run:
  "contains (u ''imagesstyle.css'')
     (concat (process_content_lines (snd (split_front_matter (reformat x)))))"
proof -
  obtain f c where s: "split_front_matter x = (f, c)" by (cases "split_front_matter x")
  let ?link = "CSS_LINK_LINE @ [10]"
  show ?thesis
  proof (cases "contains (u ''imagesstyle.css'') (concat (process_content_lines c))")
    case True
    then have "reformat x = f @ process_content_lines c"
      using s by (simp add: reformat_def append_css_link_if_missing_def)
    with split_reformat_parts[OF s] True show ?thesis
      by (simp add: process_content_lines_idem)
  next
    case False
    let ?sep = "(if process_content_lines c \<noteq> [] \<and> strip (last (process_content_lines c)) \<noteq> []
                 then [[10]] else []) @ [[10]]"
    have r: "reformat x = f @ process_content_lines c @ ?sep @ [?link]"
      using s False by (simp add: reformat_def append_css_link_if_missing_def)
    have nd: "\<forall>l\<in>set (?sep @ [?link]). strip l \<noteq> u ''---''"
      using link_line_facts(2) by (auto simp add: u_def)
    have sp: "split_front_matter (reformat x) = (f, process_content_lines c @ ?sep @ [?link])"
      using split_reformat_parts_ext[OF s nd] r by simp
    obtain ws where "emit False Empty ((process_content_lines c @ ?sep) @ [?link]) = ws @ [?link]"
      using emit_keeps_last_line[OF link_line_facts(1) link_line_facts(3)] by blast
    then have "process_content_lines (process_content_lines c @ ?sep @ [?link]) = ws @ [?link]"
      by (simp add: process_content_lines_def loop_emit)
    moreover have "contains (u ''imagesstyle.css'') (concat ws @ ?link)"
      using link_line_facts(4) by (rule contains_append)
    ultimately show ?thesis using sp by simp
  qed
qed

lemma reformat_fixed_after_two_runs: "reformat (reformat (reformat x)) = reformat (reformat x)"
  using marker_after_first_run by (rule reformat_fixed_when_marker)

text \<open>
  Claim C1, as stated, fails: on the one-line file \<open>a\<close> the first run appends two blank lines
  and the stylesheet line, and the second run collapses the two blank lines into one, so it
  reports a change.
\<close>

theorem reformat_not_idempotent:
  "reformat [u ''a'' @ [10]] = [u ''a'' @ [10], [10], [10], CSS_LINK_LINE @ [10]]
   \<and> reformat (reformat [u ''a'' @ [10]]) = [u ''a'' @ [10], [10], CSS_LINK_LINE @ [10]]
   \<and> reformat (reformat [u ''a'' @ [10]]) \<noteq> reformat [u ''a'' @ [10]]
   \<and> fst (process_file (reformat [u ''a'' @ [10]]) False)"
proof -
  have 1: "reformat [u ''a'' @ [10]] = [u ''a'' @ [10], [10], [10], CSS_LINK_LINE @ [10]]"
    by (simp add: eval_reformat)
  have 2: "reformat [u ''a'' @ [10], [10], [10], CSS_LINK_LINE @ [10]]
             = [u ''a'' @ [10], [10], CSS_LINK_LINE @ [10]]"
    by (simp add: eval_reformat)
  show ?thesis by (simp add: 1 2 process_file_def)
qed

text \<open>
  Claim C1, amended. The content pass is idempotent. The whole transformation is idempotent
  on every file in which the first run appends no stylesheet line, the marker being already
  in the reformatted content: the second run yields the same lines, reports no change and
  writes nothing. On every file the output of the second run is a fixed point: a third run
  reports no change and writes nothing.
\<close>

theorem reformat_fixed_point:
  "process_content_lines (process_content_lines ls) = process_content_lines ls
   \<and> (contains (u ''imagesstyle.css'')
         (concat (process_content_lines (snd (split_front_matter x))))
        \<longrightarrow> reformat (reformat x) = reformat x
          \<and> process_file (reformat x) dry_run = (False, reformat x, None))
   \<and> reformat (reformat (reformat x)) = reformat (reformat x)
   \<and> process_file (reformat (reformat x)) dry_run = (False, reformat (reformat x), None)"
  using reformat_fixed_when_marker[of x] reformat_fixed_after_two_runs[of x]
  by (simp add: process_file_def process_content_lines_idem)

theorem reformat_fixed_point_witness:
  "contains (u ''imagesstyle.css'')
     (concat (process_content_lines (snd (split_front_matter
        [u ''# t'' @ [10], u ''b'' @ [10], CSS_LINK_LINE @ [10]]))))
   \<and> reformat (reformat [u ''# t'' @ [10], u ''b'' @ [10], CSS_LINK_LINE @ [10]])
       = reformat [u ''# t'' @ [10], u ''b'' @ [10], CSS_LINK_LINE @ [10]]
   \<and> process_file (reformat [u ''# t'' @ [10], u ''b'' @ [10], CSS_LINK_LINE @ [10]]) False
       = (False, reformat [u ''# t'' @ [10], u ''b'' @ [10], CSS_LINK_LINE @ [10]], None)"
proof -
  have h: "contains (u ''imagesstyle.css'')
     (concat (process_content_lines (snd (split_front_matter
        [u ''# t'' @ [10], u ''b'' @ [10], CSS_LINK_LINE @ [10]]))))"
    by (simp add: eval_reformat)
  from reformat_fixed_point[of "[]" "[u ''# t'' @ [10], u ''b'' @ [10], CSS_LINK_LINE @ [10]]" False] h
  show ?thesis by blast
qed

text \<open>
  Claim C2, as stated, fails: the marker is searched in the reformatted content only. A file
  whose front matter contains the marker and whose content does not gets the stylesheet
  line appended.
\<close>

theorem css_line_appended_despite_marker_in_front_matter:
  "contains (u ''imagesstyle.css'')
     (concat [u ''---'' @ [10], u ''css: imagesstyle.css'' @ [10], u ''---'' @ [10], u ''a'' @ [10]])
   \<and> reformat [u ''---'' @ [10], u ''css: imagesstyle.css'' @ [10], u ''---'' @ [10], u ''a'' @ [10]]
       = [u ''---'' @ [10], u ''css: imagesstyle.css'' @ [10], u ''---'' @ [10], u ''a'' @ [10],
          [10], [10], CSS_LINK_LINE @ [10]]"
  by (simp add: eval_reformat)

text \<open>
  Claim C2, amended. For a file made of a front-matter block \<open>f\<close> (or of no front matter) and
  the content \<open>c\<close>, the output is \<open>f\<close> unchanged, the reformatted content, and then the blank
  separator and the stylesheet line exactly when the marker occurs nowhere in the
  reformatted content; what the front matter contains plays no part.
\<close>

theorem css_line_appended_iff_marker_missing_in_content:
  assumes "front_block f \<or> (f = [] \<and> split_front_matter c = ([], c))"
  shows "reformat (f @ c) =
           f @ process_content_lines c @
           (if contains (u ''imagesstyle.css'') (concat (process_content_lines c)) then []
            else (if last_nonblank (process_content_lines c) then [[10]] else [])
                 @ [[10], CSS_LINK_LINE @ [10]])"
proof -
  have "split_front_matter (f @ c) = (f, c)"
    using assms split_front_block by auto
  then show ?thesis
    by (simp add: reformat_def append_css_link_if_missing_def last_nonblank_def)
qed

theorem css_line_appended_iff_marker_missing_in_content_witness:
  "front_block [u ''---'' @ [10], u ''css: imagesstyle.css'' @ [10], u ''---'' @ [10]]
   \<and> reformat ([u ''---'' @ [10], u ''css: imagesstyle.css'' @ [10], u ''---'' @ [10]]
                 @ [u ''x imagesstyle.css'' @ [10]])
       = [u ''---'' @ [10], u ''css: imagesstyle.css'' @ [10], u ''---'' @ [10]]
         @ process_content_lines [u ''x imagesstyle.css'' @ [10]]
         @ (if contains (u ''imagesstyle.css'')
                 (concat (process_content_lines [u ''x imagesstyle.css'' @ [10]])) then []
            else (if last_nonblank (process_content_lines [u ''x imagesstyle.css'' @ [10]])
                  then [[10]] else [])
                 @ [[10], CSS_LINK_LINE @ [10]])"
proof -
  have h: "front_block [u ''---'' @ [10], u ''css: imagesstyle.css'' @ [10], u ''---'' @ [10]]"
    by (simp add: front_block_def u_def strip_def strip_chars_def is_space_def)
  from css_line_appended_iff_marker_missing_in_content[OF disjI1, OF h,
      of "[u ''x imagesstyle.css'' @ [10]]"] h
  show ?thesis by blast
qed


section \<open>Properties of the importer\<close>

lemmas eval_re = u_def strip_def strip_chars_def is_space_def re_match_def re_lit_def re_one_def
  re_plus_def re_star_def re_sub_def re_sub_multiline_bol_def grp_def

lemmas eval_names = rfind_def basename_def splitext_def suffix_of_def stem_def unquote_def
  hex_val_def ascii_db_def ascii_lower_def is_alnum_def is_lower_alnum_def IMG_EXTS_def
  sanitize_img_def build_new_img_name_def slugify_def templated_def ci_def


lemma rep_last_item:
  "rep p lo None [] acc s =
     (if lo \<le> length (takeWhile p s) then Some ([acc @ takeWhile p s], dropWhile p s) else None)"
  by (induction s arbitrary: lo acc) auto

lemma match_plus:
  "match_items [re_plus p] s =
     (if s \<noteq> [] \<and> p (hd s) then Some ([takeWhile p s], dropWhile p s) else None)"
  by (cases s) (auto simp add: re_plus_def rep_last_item)

lemma sub_go_plus:
  "sub_go False [re_plus p] (\<lambda>ms. r) b 0 s = coll p r False s
   \<and> sub_go False [re_plus p] (\<lambda>ms. r) b (length (takeWhile p s)) s = coll p r True s"
proof (induction s arbitrary: b)
  case Nil
  then show ?case by (simp add: match_plus)
next
  case (Cons c s)
  then show ?case by (simp add: match_plus)
qed

lemma re_sub_plus: "re_sub [re_plus p] (\<lambda>ms. r) s = coll p r False s"
  by (simp add: re_sub_def sub_go_plus)

lemma coll_chars:
  "c \<in> set (coll p r b s) \<Longrightarrow> c \<in> set r \<or> (c \<in> set s \<and> \<not> p c)"
  by (induction s arbitrary: b) (auto split: if_splits)

lemma coll_hyphens:
  "successively (\<lambda>a b. \<not> (a = 45 \<and> b = 45)) (coll (\<lambda>c. \<not> is_lower_alnum c) [45] b s)
   \<and> (b \<longrightarrow> coll (\<lambda>c. \<not> is_lower_alnum c) [45] b s = []
             \<or> hd (coll (\<lambda>c. \<not> is_lower_alnum c) [45] b s) \<noteq> 45)"
proof (induction s arbitrary: b)
  case Nil
  then show ?case by simp
next
  case (Cons c s)
  have a: "is_lower_alnum c \<Longrightarrow> c \<noteq> 45" by (auto simp add: is_lower_alnum_def)
  from Cons[of True] Cons[of False] a show ?case
    by (auto simp add: successively_Cons)
qed

lemma coll_slug_shaped: "slug_shaped (coll (\<lambda>c. \<not> is_lower_alnum c) [45] False s)"
  using coll_hyphens[of False s] coll_chars[of _ "\<lambda>c. \<not> is_lower_alnum c" "[45]" False s]
  by (auto simp add: slug_shaped_def slug_char_def)

lemma coll_fixed:
  "slug_shaped t \<Longrightarrow> coll (\<lambda>c. \<not> is_lower_alnum c) [45] False t = t"
proof (induction t)
  case Nil
  then show ?case by simp
next
  case (Cons c t)
  have t: "slug_shaped t" using Cons.prems
    by (auto simp add: slug_shaped_def successively_Cons)
  have a: "is_lower_alnum 45 = False" by (simp add: is_lower_alnum_def)
  show ?case
  proof (cases "is_lower_alnum c")
    case True
    then show ?thesis using Cons.IH[OF t] by simp
  next
    case False
    with Cons.prems have c: "c = 45" by (simp add: slug_shaped_def slug_char_def)
    have "coll (\<lambda>c. \<not> is_lower_alnum c) [45] True t = coll (\<lambda>c. \<not> is_lower_alnum c) [45] False t"
    proof (cases t)
      case Nil
      then show ?thesis by simp
    next
      case (Cons d t')
      with \<open>slug_shaped (c # t)\<close> c have "d \<noteq> 45" "slug_char d"
        by (auto simp add: slug_shaped_def successively_Cons)
      then have "is_lower_alnum d" by (simp add: slug_char_def)
      with Cons show ?thesis by simp
    qed
    with False c Cons.IH[OF t] show ?thesis by simp
  qed
qed

lemma strip_chars_infix: "\<exists>a b. s = a @ strip_chars p s @ b"
proof -
  define d where "d = dropWhile p s"
  have 1: "s = takeWhile p s @ d" by (simp add: d_def)
  have "rev d = takeWhile p (rev d) @ dropWhile p (rev d)" by simp
  then have "rev (rev d) = rev (takeWhile p (rev d) @ dropWhile p (rev d))" by simp
  then have 2: "d = rev (dropWhile p (rev d)) @ rev (takeWhile p (rev d))"
    by (simp only: rev_rev_ident rev_append)
  have 3: "strip_chars p s = rev (dropWhile p (rev d))" by (simp add: strip_chars_def d_def)
  from 1 2 3 show ?thesis by metis
qed

lemma strip_chars_ends:
  assumes "strip_chars p s \<noteq> []"
  shows "\<not> p (hd (strip_chars p s))" "\<not> p (last (strip_chars p s))"
proof -
  let ?d = "dropWhile p s"
  let ?e = "dropWhile p (rev ?d)"
  have e: "?e \<noteq> []" using assms by (simp add: strip_chars_def)
  then have d: "?d \<noteq> []" by (metis dropWhile.simps(1) rev.simps(1))
  have "\<not> p (hd ?e)" using e by (rule hd_dropWhile)
  then show "\<not> p (last (strip_chars p s))" using e by (simp add: strip_chars_def last_rev)
  have "\<not> p (hd ?d)" using d by (rule hd_dropWhile)
  moreover have "last ?e = last (rev ?d)"
    using e by (metis takeWhile_dropWhile_id last_appendR)
  ultimately show "\<not> p (hd (strip_chars p s))" using e d
    by (simp add: strip_chars_def hd_rev last_rev)
qed

lemma slug_shaped_infix: "slug_shaped (a @ t @ b) \<Longrightarrow> slug_shaped t"
  by (auto simp add: slug_shaped_def successively_append_iff)

lemma strip_chars_no_op:
  "t \<noteq> [] \<Longrightarrow> \<not> p (hd t) \<Longrightarrow> \<not> p (last t) \<Longrightarrow> strip_chars p t = t"
proof -
  assume a: "t \<noteq> []" "\<not> p (hd t)" "\<not> p (last t)"
  then have 1: "dropWhile p t = t" by (cases t) auto
  from a have "rev t \<noteq> []" "\<not> p (hd (rev t))" by (simp_all add: hd_rev)
  then have "dropWhile p (rev t) = rev t" by (cases "rev t") auto
  with 1 show ?thesis by (simp add: strip_chars_def)
qed

lemma slug_char_ascii: "slug_char c \<Longrightarrow> c < 128 \<and> ascii_lower c = c"
  by (auto simp add: slug_char_def is_lower_alnum_def ascii_lower_def)

lemma slugify_fixed:
  assumes "unicode_ok db" "slug_shaped t" "t \<noteq> []" "hd t \<noteq> 45" "last t \<noteq> 45"
  shows "slugify db t = t"
proof -
  have asc: "is_ascii t" using assms(2) slug_char_ascii
    by (auto simp add: is_ascii_def slug_shaped_def)
  have f: "filter (\<lambda>c. c < 128) t = t" using asc by (simp add: is_ascii_def)
  have m: "map ascii_lower t = t"
    using assms(2) slug_char_ascii by (simp add: slug_shaped_def map_idI)
  have n: "db_nfkd db t = t" "db_lower db t = t"
    using assms(1) asc m by (simp_all add: unicode_ok_def)
  have s: "strip_chars (\<lambda>c. c = 45) t = t"
    using assms(3-5) by (rule strip_chars_no_op)
  show ?thesis
    using f n s assms(3) coll_fixed[OF assms(2)]
    by (simp add: slugify_def re_sub_plus u_def)
qed

lemma post_shaped: "slug_shaped (u ''post'')"
  by (simp add: slug_shaped_def slug_char_def is_lower_alnum_def u_def)

lemma slugify_shape:
  "slug_shaped (slugify db x) \<and> slugify db x \<noteq> [] \<and> hd (slugify db x) \<noteq> 45
   \<and> last (slugify db x) \<noteq> 45"
proof -
  let ?o = "coll (\<lambda>c. \<not> is_lower_alnum c) [45] False (db_lower db (filter (\<lambda>c. c < 128) (db_nfkd db x)))"
  let ?n = "strip_chars (\<lambda>c. c = 45) ?o"
  have sl: "slugify db x = (if ?n = [] then u ''post'' else ?n)"
    by (simp add: slugify_def re_sub_plus u_def)
  show ?thesis
  proof (cases "?n = []")
    case True
    with sl post_shaped show ?thesis by (simp add: u_def)
  next
    case False
    obtain a b where "?o = a @ ?n @ b" using strip_chars_infix by blast
    with coll_slug_shaped[of "db_lower db (filter (\<lambda>c. c < 128) (db_nfkd db x))"]
    have "slug_shaped ?n" using slug_shaped_infix by metis
    with False sl strip_chars_ends[OF False] show ?thesis by simp
  qed
qed

lemma coll_all_bad: "\<forall>c\<in>set s. p c \<Longrightarrow> set (coll p r b s) \<subseteq> set r"
  using coll_chars by fastforce

text \<open>
  Claim C7. On every string \<open>slugify\<close> returns a value (the model is a total function); for
  Unicode tables that leave ASCII text as Python's do, \<open>slugify\<close> is idempotent, its result
  consists of lower-case ASCII letters, digits and hyphens, is not empty, neither starts nor
  ends with a hyphen, and is the literal \<open>post\<close> whenever the normalised name is empty, which is
  so for the empty string and for every string whose ASCII-folded, lower-cased form holds no
  letter or digit.
\<close>

theorem slugify_idempotent_and_shaped:
  assumes "unicode_ok db"
  shows "slugify db (slugify db x) = slugify db x
       \<and> (\<forall>c\<in>set (slugify db x). is_lower_alnum c \<or> c = 45)
       \<and> slugify db x \<noteq> [] \<and> hd (slugify db x) \<noteq> 45 \<and> last (slugify db x) \<noteq> 45
       \<and> (strip_chars (\<lambda>c. c = 45)
             (re_sub [re_plus (\<lambda>c. \<not> is_lower_alnum c)] (\<lambda>ms. u ''-'')
                (db_lower db (filter (\<lambda>c. c < 128) (db_nfkd db x)))) = []
            \<longrightarrow> slugify db x = u ''post'')
       \<and> (x = [] \<longrightarrow> slugify db x = u ''post'')
       \<and> ((\<forall>c\<in>set (db_lower db (filter (\<lambda>c. c < 128) (db_nfkd db x))). \<not> is_lower_alnum c)
            \<longrightarrow> slugify db x = u ''post'')"
proof -
  have sh: "slug_shaped (slugify db x)" "slugify db x \<noteq> []" "hd (slugify db x) \<noteq> 45"
    "last (slugify db x) \<noteq> 45"
    using slugify_shape[of db x] by simp_all
  have 1: "slugify db (slugify db x) = slugify db x"
    using assms sh by (rule slugify_fixed)
  have 2: "\<forall>c\<in>set (slugify db x). is_lower_alnum c \<or> c = 45"
    using sh(1) by (simp add: slug_shaped_def slug_char_def)
  have 3: "strip_chars (\<lambda>c. c = 45)
             (re_sub [re_plus (\<lambda>c. \<not> is_lower_alnum c)] (\<lambda>ms. u ''-'')
                (db_lower db (filter (\<lambda>c. c < 128) (db_nfkd db x)))) = []
            \<longrightarrow> slugify db x = u ''post''"
    by (simp add: slugify_def)
  have e: "db_nfkd db [] = []" "db_lower db [] = []"
    using assms by (simp_all add: unicode_ok_def is_ascii_def)
  have 4: "x = [] \<longrightarrow> slugify db x = u ''post''"
    using e by (simp add: slugify_def re_sub_plus strip_chars_def)
  have 5: "(\<forall>c\<in>set (db_lower db (filter (\<lambda>c. c < 128) (db_nfkd db x))). \<not> is_lower_alnum c)
            \<longrightarrow> slugify db x = u ''post''"
  proof
    assume a: "\<forall>c\<in>set (db_lower db (filter (\<lambda>c. c < 128) (db_nfkd db x))). \<not> is_lower_alnum c"
    let ?o = "coll (\<lambda>c. \<not> is_lower_alnum c) [45] False (db_lower db (filter (\<lambda>c. c < 128) (db_nfkd db x)))"
    have "set ?o \<subseteq> {45}" using coll_all_bad[OF a, of "[45]" False] by simp
    then have "\<forall>c\<in>set ?o. c = 45" by auto
    then have "dropWhile (\<lambda>c. c = 45) ?o = []" by (simp only: dropWhile_eq_Nil_conv)
    then have dn: "strip_chars (\<lambda>c. c = 45) ?o = []" by (simp only: strip_chars_def rev.simps dropWhile.simps)
    show "slugify db x = u ''post''"
      by (simp add: slugify_def Let_def re_sub_plus u_def dn)
  qed
  from 1 2 sh 3 4 5 show ?thesis by blast
qed

lemma unicode_ok_ascii_db: "unicode_ok ascii_db"
  by (simp add: unicode_ok_def ascii_db_def)

theorem slugify_idempotent_and_shaped_witness:
  "unicode_ok ascii_db
   \<and> slugify ascii_db (u ''Hello, World!'') = u ''hello-world''
   \<and> slugify ascii_db (slugify ascii_db (u ''Hello, World!'')) = slugify ascii_db (u ''Hello, World!'')
   \<and> slugify ascii_db (u ''?!'') = u ''post''"
proof -
  have h: "unicode_ok ascii_db" by (simp add: unicode_ok_def ascii_db_def)
  have v: "slugify ascii_db (u ''Hello, World!'') = u ''hello-world''"
    "slugify ascii_db (u ''?!'') = u ''post''"
    by (simp_all add: eval_re eval_names)
  from slugify_idempotent_and_shaped[OF h, of "u ''Hello, World!''"] h v show ?thesis by blast
qed


lemma copy_images_keeps:
  "copy_images db slug imgs (st, m) = (st', m') \<Longrightarrow>
   posts st' = posts st \<and> stdout st' = stdout st \<and> scratch st' = scratch st
   \<and> (asset_dirs st slug \<noteq> None \<longrightarrow> asset_dirs st' slug \<noteq> None)"
proof (induction imgs arbitrary: st m)
  case Nil
  then show ?case by simp
next
  case (Cons img imgs)
  from Cons.prems Cons.IH show ?case
    by (fastforce simp add: Let_def copy_into_def)
qed

lemma process_zip_failure_state:
  assumes "process_zip db zp date category st = Inl (e, st')"
  shows "posts st' = posts st \<and> scratch st' = scratch st"
proof (cases "a_extract zp")
  case (Inl x)
  with assms show ?thesis
    by (auto simp add: process_zip_def Let_def rmtree_def say_def)
next
  case (Inr tree)
  show ?thesis
  proof (cases "find_first_markdown db tree")
    case None
    with assms Inr show ?thesis by (simp add: process_zip_def Let_def)
  next
    case (Some md_in)
    obtain st4 m where c: "copy_images db (slugify db (stem (a_name zp))) (collect_images db tree)
        (mkdir_assets (slugify db (stem (a_name zp)))
           ((say (u ''== Procesando '' @ a_name zp @ u '' -> slug: '' @ slugify db (stem (a_name zp))) st)
              \<lparr>scratch := Suc (scratch (say (u ''== Procesando '' @ a_name zp @ u '' -> slug: '' @ slugify db (stem (a_name zp))) st))\<rparr>),
         Map.empty) = (st4, m)"
      by (cases "copy_images db (slugify db (stem (a_name zp))) (collect_images db tree)
        (mkdir_assets (slugify db (stem (a_name zp)))
           ((say (u ''== Procesando '' @ a_name zp @ u '' -> slug: '' @ slugify db (stem (a_name zp))) st)
              \<lparr>scratch := Suc (scratch (say (u ''== Procesando '' @ a_name zp @ u '' -> slug: '' @ slugify db (stem (a_name zp))) st))\<rparr>),
         Map.empty)")
    from copy_images_keeps[OF c] assms Inr Some c show ?thesis
      by (auto simp add: process_zip_def Let_def rmtree_def say_def mkdir_assets_def
          split: sum.splits option.splits)
  qed
qed

lemma process_all_append:
  "process_all db before st = Inr st1 \<Longrightarrow>
   process_all db (before @ rest) st = process_all db rest st1"
  by (induction before arbitrary: st) (auto split: sum.splits)

lemma good_alone: "\<exists>st. main ascii_db [good_zip] site0 = Inr st \<and> posts st (u ''2025-09-27-b.markdown'') \<noteq> None"
  by (simp add: main_def process_zip_def good_zip_def site0_def find_first_markdown_def
      collect_images_def Let_def say_def rmtree_def mkdir_assets_def POST_DATE_def POST_CATEGORY_def
      eval_re eval_names)

text \<open>
  Claim C4, as stated, fails: in a batch of a malformed archive (the older one) and a good
  one, the run ends with the exception of the first, and the post of the second, which a run
  on it alone writes, is never written.
\<close>

theorem failure_aborts_batch:
  "main ascii_db [good_zip, bad_zip] site0 =
     Inl (BadZipFile, \<lparr>posts = Map.empty, asset_dirs = Map.empty,
                       stdout = [u ''== Procesando a.zip -> slug: a''], scratch = 0\<rparr>)
   \<and> (case main ascii_db [good_zip] site0 of
         Inl e \<Rightarrow> False
       | Inr st \<Rightarrow> posts st (u ''2025-09-27-b.markdown'') \<noteq> None)"
  using good_alone
  by (auto simp add: main_def process_zip_def good_zip_def bad_zip_def site0_def Let_def say_def
      rmtree_def eval_re eval_names)

text \<open>
  Claim C4, amended. \<open>main\<close> has no handler around \<open>process_zip\<close>: when \<open>process_zip\<close> raises on an
  archive, after the archives sorted before it were processed, the exception (and the state at
  that moment) is the outcome of the whole run, whatever archives come later: none of them is
  processed. The failing archive writes no post and its scratch directory is removed.
\<close>

theorem batch_stops_at_first_failure:
  assumes "sort_key a_mtime zips = before @ zp # later"
    and "process_all db before st = Inr st1"
    and "process_zip db zp POST_DATE POST_CATEGORY st1 = Inl (e, st2)"
  shows "main db zips st = Inl (e, st2) \<and> posts st2 = posts st1 \<and> scratch st2 = scratch st1"
  using assms process_all_append[OF assms(2), of "zp # later"] process_zip_failure_state[OF assms(3)]
  by (simp add: main_def)

theorem batch_stops_at_first_failure_witness:
  "sort_key a_mtime [good_zip, bad_zip] = [] @ bad_zip # [good_zip]
   \<and> process_all ascii_db [] site0 = Inr site0
   \<and> process_zip ascii_db bad_zip POST_DATE POST_CATEGORY site0
       = Inl (BadZipFile, site0\<lparr>stdout := [u ''== Procesando a.zip -> slug: a'']\<rparr>)
   \<and> main ascii_db [good_zip, bad_zip] site0
       = Inl (BadZipFile, site0\<lparr>stdout := [u ''== Procesando a.zip -> slug: a'']\<rparr>)"
proof -
  have h1: "sort_key a_mtime [good_zip, bad_zip] = [] @ bad_zip # [good_zip]"
    by (simp add: good_zip_def bad_zip_def)
  have h2: "process_all ascii_db [] site0 = Inr site0" by simp
  have h3: "process_zip ascii_db bad_zip POST_DATE POST_CATEGORY site0
       = Inl (BadZipFile, site0\<lparr>stdout := [u ''== Procesando a.zip -> slug: a'']\<rparr>)"
    by (simp add: process_zip_def bad_zip_def site0_def Let_def say_def rmtree_def eval_re eval_names)
  from batch_stops_at_first_failure[OF h1 h2 h3] h1 h2 h3 show ?thesis by simp
qed


lemma find_first_markdown_None:
  "(find_first_markdown db tree = None) = (\<forall>p\<in>set tree. \<not> is_markdown db p)"
  by (auto simp add: find_first_markdown_def is_markdown_def find_None_iff)

lemma find_first_markdown_first:
  "\<forall>p\<in>set before. \<not> is_markdown db p \<Longrightarrow> is_markdown db p \<Longrightarrow>
   find_first_markdown db (before @ p # later) = Some p"
  by (induction before) (auto simp add: find_first_markdown_def is_markdown_def)

lemma no_markdown_skips:
  assumes "a_extract zp = Inr tree" and "\<forall>p\<in>set tree. \<not> is_markdown db p"
  shows "process_zip db zp date category st =
           Inr (st\<lparr>stdout := stdout st @
                  [u ''== Procesando '' @ a_name zp @ u '' -> slug: '' @ slugify db (stem (a_name zp)),
                   warn_no_markdown (a_name zp)]\<rparr>)"
    and "process_all db (zp # zps) st =
           process_all db zps (st\<lparr>stdout := stdout st @
                  [u ''== Procesando '' @ a_name zp @ u '' -> slug: '' @ slugify db (stem (a_name zp)),
                   warn_no_markdown (a_name zp)]\<rparr>)"
proof -
  have n: "find_first_markdown db tree = None"
    using assms(2) by (simp add: find_first_markdown_None)
  show 1: "process_zip db zp date category st =
           Inr (st\<lparr>stdout := stdout st @
                  [u ''== Procesando '' @ a_name zp @ u '' -> slug: '' @ slugify db (stem (a_name zp)),
                   warn_no_markdown (a_name zp)]\<rparr>)" for date category
    using assms(1) n by (simp add: process_zip_def Let_def say_def rmtree_def)
  show "process_all db (zp # zps) st =
           process_all db zps (st\<lparr>stdout := stdout st @
                  [u ''== Procesando '' @ a_name zp @ u '' -> slug: '' @ slugify db (stem (a_name zp)),
                   warn_no_markdown (a_name zp)]\<rparr>)"
    by (simp add: 1)
qed

text \<open>
  Claim C6 on an archive that holds no markdown file, only a directory named \<open>x.md\<close>:
  \<open>find_first_markdown\<close>, which unlike \<open>collect_images\<close> does not test \<open>is_file\<close>, returns the
  directory; the asset directory of the archive is created, no warning is printed, reading
  the directory raises, and the run ends there instead of going on to the next archive.
\<close>

theorem markdown_named_directory_not_skipped:
  "process_zip ascii_db dir_zip POST_DATE POST_CATEGORY site0 =
     Inl (IsADirectoryError,
          \<lparr>posts = Map.empty, asset_dirs = [u ''a'' \<mapsto> Map.empty],
           stdout = [u ''== Procesando a.zip -> slug: a''], scratch = 0\<rparr>)
   \<and> main ascii_db [dir_zip, good_zip] site0 =
     Inl (IsADirectoryError,
          \<lparr>posts = Map.empty, asset_dirs = [u ''a'' \<mapsto> Map.empty],
           stdout = [u ''== Procesando a.zip -> slug: a''], scratch = 0\<rparr>)"
  by (simp add: main_def process_zip_def dir_zip_def good_zip_def site0_def find_first_markdown_def
      collect_images_def Let_def say_def rmtree_def mkdir_assets_def POST_DATE_def POST_CATEGORY_def
      eval_re eval_names)

text \<open>
  Claim C10. \<open>find_first_markdown\<close> returns the first path, in traversal order, whose
  lower-cased suffix is \<open>.md\<close> or \<open>.markdown\<close>, also when that path is a directory, whereas
  \<open>collect_images\<close> never returns a directory. An archive whose first such path is a directory
  is therefore not skipped with the warning: its asset directory is created, only the
  line announcing the archive is printed, and \<open>read_text\<close> on the directory raises.
\<close>

theorem find_first_markdown_accepts_directory:
  assumes "a_extract zp = Inr (before @ Dir n # later)"
    and "\<forall>p\<in>set before. \<not> is_markdown db p"
    and "is_markdown db (Dir n)"
  shows "find_first_markdown db (before @ Dir n # later) = Some (Dir n)
       \<and> Dir n \<notin> set (collect_images db (before @ Dir n # later))
       \<and> (\<exists>st'. process_zip db zp date category st = Inl (IsADirectoryError, st')
              \<and> asset_dirs st' (slugify db (stem (a_name zp))) \<noteq> None
              \<and> stdout st' = stdout st @
                  [u ''== Procesando '' @ a_name zp @ u '' -> slug: '' @ slugify db (stem (a_name zp))])"
proof -
  let ?slug = "slugify db (stem (a_name zp))"
  let ?tree = "before @ Dir n # later"
  let ?st2 = "(say (u ''== Procesando '' @ a_name zp @ u '' -> slug: '' @ ?slug) st)
              \<lparr>scratch := Suc (scratch (say (u ''== Procesando '' @ a_name zp @ u '' -> slug: '' @ ?slug) st))\<rparr>"
  have f: "find_first_markdown db ?tree = Some (Dir n)"
    using assms(2,3) by (rule find_first_markdown_first)
  have c: "Dir n \<notin> set (collect_images db ?tree)"
    by (simp add: collect_images_def)
  obtain st4 m where cp: "copy_images db ?slug (collect_images db ?tree) (mkdir_assets ?slug ?st2, Map.empty) = (st4, m)"
    by (cases "copy_images db ?slug (collect_images db ?tree) (mkdir_assets ?slug ?st2, Map.empty)")
  have mk: "asset_dirs (mkdir_assets ?slug ?st2) ?slug \<noteq> None"
    by (simp add: mkdir_assets_def split: option.splits)
  from copy_images_keeps[OF cp] mk
  have k: "stdout st4 = stdout (mkdir_assets ?slug ?st2)" "asset_dirs st4 ?slug \<noteq> None" by simp_all
  have "process_zip db zp date category st = Inl (IsADirectoryError, rmtree st4)"
    using assms(1) f cp by (simp add: process_zip_def Let_def)
  moreover have "asset_dirs (rmtree st4) ?slug \<noteq> None" using k by (simp add: rmtree_def)
  moreover have "stdout (rmtree st4) = stdout st @ [u ''== Procesando '' @ a_name zp @ u '' -> slug: '' @ ?slug]"
    using k by (simp add: rmtree_def say_def mkdir_assets_def split: option.splits)
  ultimately show ?thesis using f c by blast
qed

theorem find_first_markdown_accepts_directory_witness:
  "a_extract dir_zip = Inr ([] @ Dir (u ''x.md'') # [])
   \<and> is_markdown ascii_db (Dir (u ''x.md''))
   \<and> find_first_markdown ascii_db ([] @ Dir (u ''x.md'') # []) = Some (Dir (u ''x.md''))
   \<and> (\<exists>st'. process_zip ascii_db dir_zip POST_DATE POST_CATEGORY site0 = Inl (IsADirectoryError, st')
              \<and> asset_dirs st' (slugify ascii_db (stem (a_name dir_zip))) \<noteq> None)"
proof -
  have h1: "a_extract dir_zip = Inr ([] @ Dir (u ''x.md'') # [])" by (simp add: dir_zip_def)
  have h2: "\<forall>p\<in>set []. \<not> is_markdown ascii_db p" by simp
  have h3: "is_markdown ascii_db (Dir (u ''x.md''))"
    by (simp add: is_markdown_def eval_re eval_names)
  from find_first_markdown_accepts_directory[OF h1 h2 h3, of POST_DATE POST_CATEGORY site0] h1 h3
  show ?thesis by blast
qed

lemma lower_ascii: "unicode_ok db \<Longrightarrow> is_ascii s \<Longrightarrow> db_lower db s = map ascii_lower s"
  by (simp add: unicode_ok_def)

lemma sub_go_bol_irrelevant:
  "sub_go False its f b n s = sub_go False its f b' n s"
proof (cases s)
  case Nil
  then show ?thesis by simp
next
  case (Cons c s')
  then show ?thesis by (cases n) simp_all
qed

lemma sub_go_skip_Cons:
  "0 < n \<Longrightarrow> sub_go bo its f b n (c # s) = sub_go bo its f (c = 10) (n - 1) s"
  by (cases n) simp_all

lemma rep_done:
  "rep p 0 (Some 0) its acc s =
     (case match_items its s of Some (ms, r) \<Rightarrow> Some (acc # ms, r) | None \<Rightarrow> None)"
  by (cases s) simp_all

lemma sub_go_no_start:
  "\<forall>c\<in>set s. \<not> p c \<Longrightarrow>
   sub_go False (re_one p # its) f b 0 (s @ t) = s @ sub_go False (re_one p # its) f b' 0 t"
proof (induction s arbitrary: b)
  case Nil
  show ?case by (simp add: sub_go_bol_irrelevant[of _ _ b _ _ b'])
next
  case (Cons c s)
  then show ?case by (simp add: re_one_def)
qed

lemma sub_go_no_start_id:
  "\<forall>c\<in>set s. \<not> p c \<Longrightarrow> sub_go False (re_one p # its) f b 0 s = s"
  using sub_go_no_start[of s p its f b "[]" b] by (simp add: re_one_def)

lemma sub_go_no_start_all:
  "\<forall>c\<in>set s. \<not> p c \<Longrightarrow> re_sub (re_one p # its) f s = s"
  using sub_go_no_start[of s p its f True "[]" True]
  by (simp add: re_sub_def re_one_def)


lemma names_photo:
  assumes "unicode_ok db"
  shows "db_lower db (suffix_of (u ''notes.md'')) = u ''.md''"
    and "db_lower db (suffix_of (u ''photo.PNG'')) = u ''.png''"
    and "stem (u ''notes.md'') = u ''notes''"
    and "db_lower db (u ''photo.PNG'') = u ''photo.png''"
    and "db_lower db (u ''photo.png'') = u ''photo.png''"
    and "sanitize_img db (u ''photo.PNG'') = u ''photo.png''"
proof -
  show 1: "db_lower db (suffix_of (u ''notes.md'')) = u ''.md''"
    by (simp add: suffix_of_def rfind_def u_def lower_ascii[OF assms] is_ascii_def ascii_lower_def)
  show 2: "db_lower db (suffix_of (u ''photo.PNG'')) = u ''.png''"
    by (simp add: suffix_of_def rfind_def u_def lower_ascii[OF assms] is_ascii_def ascii_lower_def)
  show "stem (u ''notes.md'') = u ''notes''"
    by (simp add: stem_def rfind_def u_def)
  show "db_lower db (u ''photo.PNG'') = u ''photo.png''"
    by (simp add: u_def lower_ascii[OF assms] is_ascii_def ascii_lower_def)
  show "db_lower db (u ''photo.png'') = u ''photo.png''"
    by (simp add: u_def lower_ascii[OF assms] is_ascii_def ascii_lower_def)
  have sp: "splitext (basename (u ''photo.PNG'')) = (u ''photo'', u ''.PNG'')"
    by (simp add: splitext_def basename_def rfind_def u_def)
  have lo: "db_lower db (u ''.PNG'') = u ''.png''"
    by (simp add: u_def lower_ascii[OF assms] is_ascii_def ascii_lower_def)
  have rs: "re_sub [re_plus (\<lambda>c. \<not> is_alnum c)] (\<lambda>ms. u ''_'') (u ''photo'') = u ''photo''"
    by (simp add: re_sub_plus u_def is_alnum_def)
  show "sanitize_img db (u ''photo.PNG'') = u ''photo.png''"
    by (simp add: sanitize_img_def sp lo rs unquote_def IMG_EXTS_def)
       (simp add: u_def strip_chars_def)
qed

lemma md_ref_rewritten:
  assumes "unicode_ok db" and "33 \<notin> set pre" and "33 \<notin> set post" and "new_fn \<noteq> []"
  shows "replace_markdown_images db (pre @ u ''![x](photo.PNG)'' @ post)
           [u ''photo.png'' \<mapsto> new_fn] slug
         = pre @ u ''![x]('' @ templated slug new_fn @ u '')'' @ post"
proof -
  let ?f = "\<lambda>ms. let alt = grp 2 ms;
                  src = unquote db (strip (grp 5 ms));
                  key = db_lower db (basename src)
              in case [u ''photo.png'' \<mapsto> new_fn] key of
                   None \<Rightarrow> concat ms
                 | Some new_fn \<Rightarrow>
                     if new_fn = [] then concat ms
                     else u ''!['' @ alt @ u ''](''  @ templated slug new_fn @ u '')''"
  have its: "MD_IMG_RE = re_one (\<lambda>c. c = 33) # tl MD_IMG_RE" by (simp add: MD_IMG_RE_def)
  have m: "match_items MD_IMG_RE (u ''![x](photo.PNG)'' @ post)
           = Some ([[33], [91], u ''x'', [93], [40], u ''photo.PNG'', [41]], post)"
    by (simp add: MD_IMG_RE_def re_one_def re_plus_def re_star_def u_def rep_done)
  have k: "db_lower db (basename (unquote db (strip (u ''photo.PNG'')))) = u ''photo.png''"
    using names_photo(4)[OF assms(1)]
    by (simp add: unquote_def basename_def rfind_def strip_def strip_chars_def is_space_def u_def)
  have f: "?f [[33], [91], u ''x'', [93], [40], u ''photo.PNG'', [41]]
           = u ''![x]('' @ templated slug new_fn @ u '')''"
    using k assms(4) by (simp add: grp_def Let_def) (simp add: u_def)
  have p1: "sub_go False MD_IMG_RE ?f True 0 (pre @ u ''![x](photo.PNG)'' @ post)
        = pre @ sub_go False MD_IMG_RE ?f True 0 (u ''![x](photo.PNG)'' @ post)"
    using assms(2) by (subst its, subst (2) its) (rule sub_go_no_start, auto)
  have p3: "sub_go False MD_IMG_RE ?f b 0 post = post" for b
    using assms(3) by (subst its) (rule sub_go_no_start_id, auto)
  have p2: "sub_go False MD_IMG_RE ?f True 0 (u ''![x](photo.PNG)'' @ post)
        = u ''![x]('' @ templated slug new_fn @ u '')'' @ sub_go False MD_IMG_RE ?f False 0 post"
  proof -
    have "sub_go False MD_IMG_RE ?f True 0 (u ''![x](photo.PNG)'' @ post)
        = ?f [[33], [91], u ''x'', [93], [40], u ''photo.PNG'', [41]]
          @ sub_go False MD_IMG_RE ?f False 0 post"
      using m by (simp add: u_def)
    then show ?thesis by (simp only: f append_assoc)
  qed
  show ?thesis
    unfolding replace_markdown_images_def re_sub_def p1 p2 p3 by simp
qed


lemma html_untouched:
  "60 \<notin> set text \<Longrightarrow> replace_html_images db text mapping slug = text"
proof -
  assume a: "60 \<notin> set text"
  have its: "HTML_IMG_RE = re_one (\<lambda>c. c = 60) # tl HTML_IMG_RE" by (simp add: HTML_IMG_RE_def)
  from a have "\<forall>c\<in>set text. \<not> c = 60" by auto
  then show ?thesis
    unfolding replace_html_images_def by (subst its) (rule sub_go_no_start_all)
qed

lemma slug_no_lt: "60 \<notin> set (slugify db x)"
proof
  assume "60 \<in> set (slugify db x)"
  with slugify_shape[of db x] have "slug_char 60" by (simp add: slug_shaped_def)
  then show False by (simp add: slug_char_def is_lower_alnum_def)
qed

text \<open>
  Claim C5. Let the archive extract to the markdown file \<open>notes.md\<close> and the image
  \<open>photo.PNG\<close>, in either order, the document being \<open>pre\<close>, the reference \<open>![x](photo.PNG)\<close> and
  \<open>post\<close>, where \<open>pre\<close> and \<open>post\<close> hold no \<open>!\<close> and no \<open><\<close> (no other image reference). Then
  \<open>process_zip\<close> returns normally, the image is stored in the asset directory of the slug under
  the name \<open>{slug}_photo.png\<close>, and the post \<open>{date}-{slug}.markdown\<close> is the front matter with the
  title \<open>notes\<close> followed by the document in which the reference has become
  \<open>![x]({{ '/assets/images/{slug}/{slug}_photo.png' | relative_url }})\<close>: same alt text, the
  rest of the document unchanged.
\<close>

theorem photo_reference_rewritten:
  assumes "unicode_ok db"
    and "a_extract zp = Inr tree"
    and "tree = [File (u ''notes.md'') (Inr (pre @ u ''![x](photo.PNG)'' @ post)),
                 File (u ''photo.PNG'') img]
         \<or> tree = [File (u ''photo.PNG'') img,
                    File (u ''notes.md'') (Inr (pre @ u ''![x](photo.PNG)'' @ post))]"
    and "\<forall>c\<in>set (pre @ post). c \<noteq> 33 \<and> c \<noteq> 60"
    and "slug = slugify db (stem (a_name zp))"
  shows "\<exists>st'. process_zip db zp date category st = Inr st'
       \<and> (\<exists>d. asset_dirs st' slug = Some d
               \<and> d (slug @ u ''_photo.png'') = Some (File (u ''photo.PNG'') img))
       \<and> posts st' (date @ u ''-'' @ slug @ u ''.markdown'') =
           Some (front_matter (u ''notes'') date category @ pre
                 @ u ''![x]({{ '' @ [39] @ u ''/assets/images/'' @ slug @ u ''/'' @ slug
                 @ u ''_photo.png'' @ [39] @ u '' | relative_url }})'' @ post)"
proof -
  let ?notes = "File (u ''notes.md'') (Inr (pre @ u ''![x](photo.PNG)'' @ post))"
  let ?photo = "File (u ''photo.PNG'') img"
  let ?new = "slug @ u ''_photo.png''"
  note n = names_photo[OF assms(1)]
  have md: "u ''.png'' \<noteq> u ''.md''" "u ''.png'' \<noteq> u ''.markdown''"
    "u ''.md'' \<notin> IMG_EXTS" "u ''.png'' \<in> IMG_EXTS"
    by (simp_all add: u_def IMG_EXTS_def)
  have f: "find_first_markdown db tree = Some ?notes"
    using assms(3) n md by (auto simp add: find_first_markdown_def)
  have c: "collect_images db tree = [?photo]"
    using assms(3) n md by (auto simp add: collect_images_def)
  have b: "build_new_img_name db slug (u ''photo.PNG'') = ?new"
    using n by (simp add: build_new_img_name_def u_def)
  have ne: "?new \<noteq> []" by (simp add: u_def)
  have p: "33 \<notin> set pre" "33 \<notin> set post" using assms(4) by auto
  have t1: "replace_markdown_images db (pre @ u ''![x](photo.PNG)'' @ post)
              [u ''photo.png'' \<mapsto> ?new] slug
            = pre @ u ''![x]('' @ templated slug ?new @ u '')'' @ post"
    using assms(1) p ne by (rule md_ref_rewritten)
  have "60 \<notin> set slug" using assms(5) slug_no_lt by simp
  then have "60 \<notin> set (pre @ u ''![x]('' @ templated slug ?new @ u '')'' @ post)"
    using assms(4) by (auto simp add: templated_def u_def)
  then have t2: "replace_html_images db (pre @ u ''![x]('' @ templated slug ?new @ u '')'' @ post)
              [u ''photo.png'' \<mapsto> ?new] slug
            = pre @ u ''![x]('' @ templated slug ?new @ u '')'' @ post"
    by (rule html_untouched)
  have tx: "pre @ u ''![x]('' @ templated slug ?new @ u '')'' @ post
            = pre @ u ''![x]({{ '' @ [39] @ u ''/assets/images/'' @ slug @ u ''/'' @ slug
                 @ u ''_photo.png'' @ [39] @ u '' | relative_url }})'' @ post"
    by (simp add: templated_def u_def)
  have nn: "u ''notes'' \<noteq> []" by (simp add: u_def)
  show ?thesis
    using assms(2) f c b n t1 t2 assms(5)[symmetric] nn
    by (simp add: process_zip_def Let_def copy_into_def mkdir_assets_def say_def rmtree_def tx
        split: option.splits)
qed


theorem photo_reference_rewritten_witness:
  "unicode_ok ascii_db
   \<and> slugify ascii_db (stem (a_name photo_zip)) = u ''my-trip''
   \<and> (\<exists>st'. process_zip ascii_db photo_zip POST_DATE POST_CATEGORY site0 = Inr st'
       \<and> (\<exists>d. asset_dirs st' (u ''my-trip'') = Some d
               \<and> d (u ''my-trip'' @ u ''_photo.png'') = Some (File (u ''photo.PNG'') (Inl UnicodeDecodeError)))
       \<and> posts st' (POST_DATE @ u ''-'' @ u ''my-trip'' @ u ''.markdown'') =
           Some (front_matter (u ''notes'') POST_DATE POST_CATEGORY @ u ''Hi ''
                 @ u ''![x]({{ '' @ [39] @ u ''/assets/images/'' @ u ''my-trip'' @ u ''/'' @ u ''my-trip''
                 @ u ''_photo.png'' @ [39] @ u '' | relative_url }})'' @ u '' bye''))"
proof -
  have h1: "unicode_ok ascii_db" by (simp add: unicode_ok_def ascii_db_def)
  have h2: "a_extract photo_zip =
      Inr [File (u ''notes.md'') (Inr (u ''Hi '' @ u ''![x](photo.PNG)'' @ u '' bye'')),
           File (u ''photo.PNG'') (Inl UnicodeDecodeError)]"
    by (simp add: photo_zip_def)
  have h4: "\<forall>c\<in>set (u ''Hi '' @ u '' bye''). c \<noteq> 33 \<and> c \<noteq> 60" by (simp add: u_def)
  have h5: "u ''my-trip'' = slugify ascii_db (stem (a_name photo_zip))"
    by (simp add: photo_zip_def eval_re eval_names)
  from photo_reference_rewritten[OF h1 h2 disjI1 h4 h5, OF refl, of POST_DATE POST_CATEGORY site0]
    h1 h5
  show ?thesis by simp
qed

text \<open>
  Claim C3 on a tag with an attribute before \<open>src\<close>: the text between \<open><img\<close> and \<open>src=\<close> is
  matched but not captured, so the rewritten tag keeps the attributes after \<open>src\<close> only and
  the \<open>alt\<close> attribute is dropped.
\<close>

theorem html_rewrite_drops_attributes_before_src:
  "replace_html_images ascii_db (u ''<img alt=\"x\" src=\"photo.png\" width=\"3\">'')
     [u ''photo.png'' \<mapsto> u ''s_photo.png''] (u ''s'')
   = u ''<img src=\"{{ '' @ [39] @ u ''/assets/images/s/s_photo.png'' @ [39]
       @ u '' | relative_url }}\" width=\"3\">''"
  by (simp add: replace_html_images_def HTML_IMG_RE_def eval_re eval_names)

lemma html_after: "replace_html_images ascii_db (u ''<img src=\"photo.png\" width=\"3\">'')
     [u ''photo.png'' \<mapsto> u ''s_photo.png''] (u ''s'')
   = u ''<img src=\"{{ '' @ [39] @ u ''/assets/images/s/s_photo.png'' @ [39]
       @ u '' | relative_url }}\" width=\"3\">''"
  by (simp add: replace_html_images_def HTML_IMG_RE_def eval_re eval_names)


section \<open>Properties of the date normalizer\<close>

lemma date_ok: "fix_date_in_file (u ''date: 2020-01-01'' @ [10] @ u ''x'' @ [10])
   = (Some (u ''date:   2025-07-17 12:05:57 -0400'' @ [10] @ u ''x'' @ [10]), True)"
  by (simp add: fix_date_in_file_def DATE_RE_def NEW_DATE_def eval_re)

text \<open>
  Claim C8 on a file whose \<open>date:\<close> line holds only a blank after the colon: \<open>\s+\<close> runs over the
  line break, so the match also takes the next line, and the title line is lost instead of
  being left as it is.
\<close>

theorem date_rewrite_swallows_next_line:
  "fix_date_in_file (u ''date: '' @ [10] @ u ''title: x'' @ [10])
   = (Some (u ''date:   2025-07-17 12:05:57 -0400'' @ [10]), True)"
  by (simp add: fix_date_in_file_def DATE_RE_def NEW_DATE_def eval_re)

end
